theory Spec2Isabelle
  imports Main "HOL-Library.AList"
begin

section \<open>Values of a structure\<close>

text \<open>
  The structure handed to \<^verbatim>\<open>create_structure\<close> is what \<^verbatim>\<open>json.load\<close> returns or
  what \<^verbatim>\<open>load_sample_structure\<close> builds: \<^verbatim>\<open>None\<close>, a bool, an int, a str, a list or a
  dict with str keys. A dict keeps its insertion order, so it is an association list;
  its keys are pairwise different (\<open>wf_json\<close> below). Floats are left out: their
  \<^verbatim>\<open>str\<close> is the shortest-repr algorithm of the C runtime. A \<open>char\<close> stands for one
  character of a Python str.
\<close>

datatype json =
    JNull
  | JBool bool
  | JInt int
  | JStr string
  | JList "json list"
  | JDict "(string \<times> json) list"

fun wf_json :: "json \<Rightarrow> bool"
and wf_items :: "(string \<times> json) list \<Rightarrow> bool"
and wf_elems :: "json list \<Rightarrow> bool" where
  "wf_json (JDict kvs) = (distinct (map fst kvs) \<and> wf_items kvs)"
| "wf_json (JList xs) = wf_elems xs"
| "wf_json JNull = True"
| "wf_json (JBool b) = True"
| "wf_json (JInt i) = True"
| "wf_json (JStr s) = True"
| "wf_items [] = True"
| "wf_items (kv # kvs) = (wf_json (snd kv) \<and> wf_items kvs)"
| "wf_elems [] = True"
| "wf_elems (x # xs) = (wf_json x \<and> wf_elems xs)"

subsection \<open>\<^verbatim>\<open>str\<close> and \<^verbatim>\<open>repr\<close>\<close>

definition digit_char :: "nat \<Rightarrow> char" where
  "digit_char d = char_of (48 + d)"

fun digits :: "nat \<Rightarrow> string" where
  "digits n = (if n < 10 then [digit_char n] else digits (n div 10) @ [digit_char (n mod 10)])"

definition str_int :: "int \<Rightarrow> string" where
  "str_int i = (if i < 0 then CHR ''-'' # digits (nat (- i)) else digits (nat i))"

definition hex_char :: "nat \<Rightarrow> char" where
  "hex_char d = (if d < 10 then char_of (48 + d) else char_of (87 + d))"

text \<open>\<^verbatim>\<open>str.isprintable\<close> on the code points below 256.\<close>

definition printable :: "char \<Rightarrow> bool" where
  "printable c = (let n = (of_char c :: nat) in
     (32 \<le> n \<and> n < 127) \<or> (161 \<le> n \<and> n \<noteq> 173))"

definition repr_char :: "char \<Rightarrow> char \<Rightarrow> string" where
  "repr_char quote c =
     (if c = quote \<or> c = CHR 0x5C then [CHR 0x5C, c]
      else if c = CHR 0x09 then [CHR 0x5C, CHR ''t'']
      else if c = CHR 0x0A then [CHR 0x5C, CHR ''n'']
      else if c = CHR 0x0D then [CHR 0x5C, CHR ''r'']
      else if printable c then [c]
      else [CHR 0x5C, CHR ''x'', hex_char (of_char c div 16), hex_char (of_char c mod 16)])"

definition repr_str :: "string \<Rightarrow> string" where
  "repr_str s =
     (let quote = (if CHR 0x27 \<in> set s \<and> CHR 0x22 \<notin> set s then CHR 0x22 else CHR 0x27)
      in quote # concat (map (repr_char quote) s) @ [quote])"

fun join_str :: "string \<Rightarrow> string list \<Rightarrow> string" where
  "join_str sep [] = []"
| "join_str sep [x] = x"
| "join_str sep (x # y # ys) = x @ sep @ join_str sep (y # ys)"

fun py_repr :: "json \<Rightarrow> string"
and repr_items :: "(string \<times> json) list \<Rightarrow> string list"
and repr_elems :: "json list \<Rightarrow> string list" where
  "py_repr JNull = ''None''"
| "py_repr (JBool b) = (if b then ''True'' else ''False'')"
| "py_repr (JInt i) = str_int i"
| "py_repr (JStr s) = repr_str s"
| "py_repr (JList xs) = ''['' @ join_str '', '' (repr_elems xs) @ '']''"
| "py_repr (JDict kvs) = ''{'' @ join_str '', '' (repr_items kvs) @ ''}''"
| "repr_items [] = []"
| "repr_items (kv # kvs) = (repr_str (fst kv) @ '': '' @ py_repr (snd kv)) # repr_items kvs"
| "repr_elems [] = []"
| "repr_elems (x # xs) = py_repr x # repr_elems xs"

fun py_str :: "json \<Rightarrow> string" where
  "py_str (JStr s) = s"
| "py_str v = py_repr v"

section \<open>Paths\<close>

text \<open>
  A \<^verbatim>\<open>pathlib.PurePosixPath\<close> after parsing: its root (\<open>''''\<close>, \<open>''/''\<close> or \<open>''//''\<close>)
  and its tail, the components that are neither empty nor \<open>''.''\<close>.
\<close>

record ppath =
  root :: string
  tail :: "string list"

fun split_sep :: "string \<Rightarrow> string list" where
  "split_sep [] = [[]]"
| "split_sep (c # cs) =
     (if c = CHR ''/'' then [] # split_sep cs
      else (case split_sep cs of [] \<Rightarrow> [[c]] | x # xs \<Rightarrow> (c # x) # xs))"

definition splitroot :: "string \<Rightarrow> string \<times> string" where
  "splitroot p =
     (if take 1 p \<noteq> ''/'' then ('''', p)
      else if take 1 (drop 1 p) \<noteq> ''/'' \<or> take 1 (drop 2 p) = ''/'' then (''/'', drop 1 p)
      else (take 2 p, drop 2 p))"

definition Path :: "string \<Rightarrow> ppath" where
  "Path s = (case splitroot s of (r, rel) \<Rightarrow>
     \<lparr>root = r, tail = filter (\<lambda>x. x \<noteq> [] \<and> x \<noteq> ''.'') (split_sep rel)\<rparr>)"

text \<open>
  \<^verbatim>\<open>base / key\<close> for a str key: \<^verbatim>\<open>posixpath.join\<close> keeps only the key when it starts
  with a slash and appends it otherwise; the result is parsed again.
\<close>

definition joinpath :: "ppath \<Rightarrow> string \<Rightarrow> ppath" where
  "joinpath p key =
     (if take 1 key = ''/'' then Path key
      else \<lparr>root = root p, tail = tail p @ tail (Path key)\<rparr>)"

definition parent :: "ppath \<Rightarrow> ppath" where
  "parent p = \<lparr>root = root p, tail = butlast (tail p)\<rparr>"

definition path_str :: "ppath \<Rightarrow> string" where
  "path_str p =
     (if root p \<noteq> [] then root p @ join_str ''/'' (tail p)
      else if tail p = [] then ''.'' else join_str ''/'' (tail p))"

section \<open>The filesystem\<close>

text \<open>
  A POSIX tree without links, permissions or limits: a map from the canonical absolute
  path of an entry (its components from the root directory, \<open>[]\<close>) to what is there.
  The content of a file is the text written to it. A world is the tree, the working
  directory of the process, what was printed, and the calls that changed the tree,
  oldest first.
\<close>

datatype node = Dir | File string

type_synonym filesys = "string list \<Rightarrow> node option"

datatype event =
    Mkdir "string list"
  | Creat "string list"
  | Write "string list" string

record world =
  fs :: filesys
  cwd :: "string list"
  stdout :: "string list"
  trace :: "event list"

datatype error =
    FileNotFoundError
  | NotADirectoryError
  | FileExistsError
  | IsADirectoryError
  | ValueError
  | TypeError
  | JSONDecodeError

definition is_oserror :: "error \<Rightarrow> bool" where
  "is_oserror e = (e = FileNotFoundError \<or> e = NotADirectoryError \<or> e = FileExistsError
     \<or> e = IsADirectoryError)"

text \<open>
  Path resolution of the kernel: every step leaves a directory that exists; \<open>''..''\<close>
  steps to the parent, any other component to the child of that name.
\<close>

fun walk :: "filesys \<Rightarrow> string list \<Rightarrow> string list \<Rightarrow> error + string list" where
  "walk f cur [] = Inr cur"
| "walk f cur (c # cs) =
     (case f cur of
        None \<Rightarrow> Inl FileNotFoundError
      | Some (File x) \<Rightarrow> Inl NotADirectoryError
      | Some Dir \<Rightarrow> walk f (if c = ''..'' then butlast cur else cur @ [c]) cs)"

text \<open>A name with a NUL character is refused before any system call (\<^verbatim>\<open>ValueError\<close>).\<close>

definition resolve :: "world \<Rightarrow> ppath \<Rightarrow> error + string list" where
  "resolve w p =
     (if list_ex (\<lambda>c. CHR 0x00 \<in> set c) (tail p) then Inl ValueError
      else walk (fs w) (if root p = [] then cwd w else []) (tail p))"

definition os_mkdir :: "ppath \<Rightarrow> world \<Rightarrow> error option \<times> world" where
  "os_mkdir p w =
     (case resolve w p of
        Inl e \<Rightarrow> (Some e, w)
      | Inr t \<Rightarrow>
          (case fs w t of
             Some n \<Rightarrow> (Some FileExistsError, w)
           | None \<Rightarrow> (None, w\<lparr>fs := (fs w)(t \<mapsto> Dir), trace := trace w @ [Mkdir t]\<rparr>)))"

definition is_dir :: "ppath \<Rightarrow> world \<Rightarrow> bool" where
  "is_dir p w = (case resolve w p of Inl e \<Rightarrow> False | Inr t \<Rightarrow> fs w t = Some Dir)"

text \<open>\<^verbatim>\<open>Path.mkdir(parents=False, exist_ok=True)\<close>, the second call of the one below.\<close>

definition mkdir_noparents :: "ppath \<Rightarrow> world \<Rightarrow> error option \<times> world" where
  "mkdir_noparents p w =
     (case os_mkdir p w of
        (None, w') \<Rightarrow> (None, w')
      | (Some e, w') \<Rightarrow>
          if e = FileNotFoundError then (Some e, w')
          else if is_oserror e \<and> is_dir p w' then (None, w')
          else (Some e, w'))"

text \<open>\<^verbatim>\<open>Path.mkdir(parents=True, exist_ok=True)\<close>.\<close>

function path_mkdir :: "ppath \<Rightarrow> world \<Rightarrow> error option \<times> world" where
  "path_mkdir p w =
     (case os_mkdir p w of
        (None, w') \<Rightarrow> (None, w')
      | (Some e, w') \<Rightarrow>
          if e = FileNotFoundError then
            (if parent p = p then (Some e, w')
             else (case path_mkdir (parent p) w' of
                     (None, w1) \<Rightarrow> mkdir_noparents p w1
                   | (Some e1, w1) \<Rightarrow> (Some e1, w1)))
          else if is_oserror e \<and> is_dir p w' then (None, w')
          else (Some e, w'))"
  by pat_completeness auto
termination
proof (relation "measure (\<lambda>(p, w). length (tail p))")
  show "wf (measure (\<lambda>(p, w). length (tail p)))" by simp
next
  fix p :: ppath and w :: world and x e w'
  assume "parent p \<noteq> p"
  then have "tail p \<noteq> []" by (cases p) (auto simp: parent_def)
  then show "((parent p, w'), (p, w)) \<in> measure (\<lambda>(p, w). length (tail p))"
    by (simp add: parent_def)
qed

declare path_mkdir.simps [simp del]

text \<open>\<^verbatim>\<open>with open(path, 'w') as f: f.write(s)\<close>.\<close>

definition write_text :: "ppath \<Rightarrow> string \<Rightarrow> world \<Rightarrow> error option \<times> world" where
  "write_text p s w =
     (case resolve w p of
        Inl e \<Rightarrow> (Some e, w)
      | Inr t \<Rightarrow>
          (case fs w t of
             Some Dir \<Rightarrow> (Some IsADirectoryError, w)
           | Some (File old) \<Rightarrow>
               (None, w\<lparr>fs := (fs w)(t \<mapsto> File s), trace := trace w @ [Write t s]\<rparr>)
           | None \<Rightarrow>
               (None, w\<lparr>fs := (fs w)(t \<mapsto> File s), trace := trace w @ [Creat t, Write t s]\<rparr>)))"

text \<open>
  \<^verbatim>\<open>Path.touch()\<close>: \<^verbatim>\<open>os.utime\<close> on an entry that exists (its times are not modelled),
  else \<^verbatim>\<open>os.open\<close> with \<^verbatim>\<open>O_CREAT\<close>.
\<close>

definition touch :: "ppath \<Rightarrow> world \<Rightarrow> error option \<times> world" where
  "touch p w =
     (case resolve w p of
        Inl e \<Rightarrow> (Some e, w)
      | Inr t \<Rightarrow>
          (case fs w t of
             Some n \<Rightarrow> (None, w)
           | None \<Rightarrow> (None, w\<lparr>fs := (fs w)(t \<mapsto> File []), trace := trace w @ [Creat t]\<rparr>)))"

definition say :: "string \<Rightarrow> world \<Rightarrow> world" where
  "say line w = w\<lparr>stdout := stdout w @ [line]\<rparr>"

section \<open>The generator\<close>

definition isinstance_dict :: "json \<Rightarrow> bool" where
  "isinstance_dict v = (case v of JDict kvs \<Rightarrow> True | _ \<Rightarrow> False)"

text \<open>
  \<^verbatim>\<open>_create\<close> of \<^verbatim>\<open>create_structure\<close>; \<open>create_items\<close> is its \<^verbatim>\<open>for\<close> loop over
  \<^verbatim>\<open>content.items()\<close>. An exception ends the traversal and leaves the world as it is
  then. At the root a value that is no dict and not \<^verbatim>\<open>None\<close> is joined to the base:
  \<^verbatim>\<open>base / content\<close> raises \<^verbatim>\<open>TypeError\<close> unless it is a str.
\<close>

fun create :: "ppath \<Rightarrow> json \<Rightarrow> world \<Rightarrow> error option \<times> world"
and create_items :: "ppath \<Rightarrow> (string \<times> json) list \<Rightarrow> world \<Rightarrow> error option \<times> world" where
  "create base (JDict kvs) w = create_items base kvs w"
| "create base JNull w = (None, w)"
| "create base (JStr s) w =
     (let path = joinpath base s in
      case touch path w of
        (None, w') \<Rightarrow> (None, say (''Created file: '' @ path_str path) w')
      | (Some e, w') \<Rightarrow> (Some e, w'))"
| "create base (JBool b) w = (Some TypeError, w)"
| "create base (JInt i) w = (Some TypeError, w)"
| "create base (JList xs) w = (Some TypeError, w)"
| "create_items base [] w = (None, w)"
| "create_items base ((name, subcontent) # rest) w =
     (let path = joinpath base name in
      case (if isinstance_dict subcontent \<or> subcontent = JNull then
              (case path_mkdir path w of
                 (None, w1) \<Rightarrow>
                   create path subcontent (say (''Created directory: '' @ path_str path) w1)
               | (Some e, w1) \<Rightarrow> (Some e, w1))
            else
              (case write_text path (py_str subcontent) w of
                 (None, w1) \<Rightarrow> (None, say (''Created file: '' @ path_str path) w1)
               | (Some e, w1) \<Rightarrow> (Some e, w1)))
      of
        (None, w2) \<Rightarrow> create_items base rest w2
      | (Some e, w2) \<Rightarrow> (Some e, w2))"

definition create_structure :: "string \<Rightarrow> json \<Rightarrow> world \<Rightarrow> error option \<times> world" where
  "create_structure base_dir structure w =
     (let base_path = Path base_dir in
      case create base_path structure w of
        (None, w') \<Rightarrow>
          (None, say (CHR 0x0A # ''Project structure created successfully at '' @ path_str base_path) w')
      | (Some e, w') \<Rightarrow> (Some e, w'))"

section \<open>JSON text\<close>

text \<open>
  \<^verbatim>\<open>json.dumps(obj, indent=4)\<close> and \<^verbatim>\<open>json.loads\<close> of the standard library, on the
  values of this model. A text whose value is outside the model (a float, \<^verbatim>\<open>NaN\<close>,
  a \<^verbatim>\<open>u\<close> escape from 0100 on) has no result here: \<open>None\<close>. The limit on the
  digits of an int is not modelled.
\<close>

definition hex4 :: "nat \<Rightarrow> string" where
  "hex4 n = [hex_char (n div 4096 mod 16), hex_char (n div 256 mod 16),
             hex_char (n div 16 mod 16), hex_char (n mod 16)]"

text \<open>\<^verbatim>\<open>ESCAPE_ASCII\<close> and \<^verbatim>\<open>ESCAPE_DCT\<close> of \<^verbatim>\<open>json.encoder\<close>.\<close>

definition escape_char :: "char \<Rightarrow> string" where
  "escape_char c =
     (if c = CHR 0x5C then [CHR 0x5C, CHR 0x5C]
      else if c = CHR 0x22 then [CHR 0x5C, CHR 0x22]
      else if c = CHR 0x08 then [CHR 0x5C, CHR ''b'']
      else if c = CHR 0x0C then [CHR 0x5C, CHR ''f'']
      else if c = CHR 0x0A then [CHR 0x5C, CHR ''n'']
      else if c = CHR 0x0D then [CHR 0x5C, CHR ''r'']
      else if c = CHR 0x09 then [CHR 0x5C, CHR ''t'']
      else if (of_char c :: nat) < 32 \<or> 126 < (of_char c :: nat)
        then [CHR 0x5C, CHR ''u''] @ hex4 (of_char c)
      else [c])"

definition encode_basestring_ascii :: "string \<Rightarrow> string" where
  "encode_basestring_ascii s = CHR 0x22 # concat (map escape_char s) @ [CHR 0x22]"

definition newline_indent :: "nat \<Rightarrow> string" where
  "newline_indent level = CHR 0x0A # replicate (4 * level) CHR '' ''"

fun iterencode :: "nat \<Rightarrow> json \<Rightarrow> string"
and iterencode_list :: "nat \<Rightarrow> json list \<Rightarrow> string"
and iterencode_dict :: "nat \<Rightarrow> (string \<times> json) list \<Rightarrow> string" where
  "iterencode level (JStr s) = encode_basestring_ascii s"
| "iterencode level JNull = ''null''"
| "iterencode level (JBool b) = (if b then ''true'' else ''false'')"
| "iterencode level (JInt i) = str_int i"
| "iterencode level (JList xs) =
     (if xs = [] then ''[]''
      else ''['' @ newline_indent (Suc level) @ iterencode_list (Suc level) xs
           @ newline_indent level @ '']'')"
| "iterencode level (JDict kvs) =
     (if kvs = [] then ''{}''
      else ''{'' @ newline_indent (Suc level) @ iterencode_dict (Suc level) kvs
           @ newline_indent level @ ''}'')"
| "iterencode_list level [] = []"
| "iterencode_list level (x # xs) =
     iterencode level x
     @ (if xs = [] then [] else '','' @ newline_indent level @ iterencode_list level xs)"
| "iterencode_dict level [] = []"
| "iterencode_dict level (kv # kvs) =
     encode_basestring_ascii (fst kv) @ '': '' @ iterencode level (snd kv)
     @ (if kvs = [] then [] else '','' @ newline_indent level @ iterencode_dict level kvs)"

definition json_dumps :: "json \<Rightarrow> string" where
  "json_dumps obj = iterencode 0 obj"

definition is_ws :: "char \<Rightarrow> bool" where
  "is_ws c = (c = CHR '' '' \<or> c = CHR 0x09 \<or> c = CHR 0x0A \<or> c = CHR 0x0D)"

definition skip_ws :: "string \<Rightarrow> string" where
  "skip_ws s = dropWhile is_ws s"

definition is_digit :: "char \<Rightarrow> bool" where
  "is_digit c = (48 \<le> (of_char c :: nat) \<and> (of_char c :: nat) \<le> 57)"

definition hex_val :: "char \<Rightarrow> nat option" where
  "hex_val c =
     (let n = (of_char c :: nat) in
      if 48 \<le> n \<and> n \<le> 57 then Some (n - 48)
      else if 97 \<le> n \<and> n \<le> 102 then Some (n - 87)
      else if 65 \<le> n \<and> n \<le> 70 then Some (n - 55)
      else None)"

text \<open>\<^verbatim>\<open>BACKSLASH\<close> of \<^verbatim>\<open>json.decoder\<close>.\<close>

definition backslash :: "char \<Rightarrow> char option" where
  "backslash e =
     (if e = CHR 0x22 then Some (CHR 0x22)
      else if e = CHR 0x5C then Some (CHR 0x5C)
      else if e = CHR ''/'' then Some (CHR ''/'')
      else if e = CHR ''b'' then Some (CHR 0x08)
      else if e = CHR ''f'' then Some (CHR 0x0C)
      else if e = CHR ''n'' then Some (CHR 0x0A)
      else if e = CHR ''r'' then Some (CHR 0x0D)
      else if e = CHR ''t'' then Some (CHR 0x09)
      else None)"

type_synonym 'a scanned = "(error + 'a \<times> string) option"

definition prepend :: "char \<Rightarrow> string scanned \<Rightarrow> string scanned" where
  "prepend c r =
     (case r of
        None \<Rightarrow> None
      | Some (Inl e) \<Rightarrow> Some (Inl e)
      | Some (Inr (s, rest)) \<Rightarrow> Some (Inr (c # s, rest)))"

text \<open>
  \<^verbatim>\<open>scanstring\<close>, strict, from the character after the opening quote: the decoded
  string and the text after the closing quote.
\<close>

fun scanstring :: "string \<Rightarrow> string scanned" where
  "scanstring [] = Some (Inl JSONDecodeError)"
| "scanstring (c # cs) =
     (if c = CHR 0x22 then Some (Inr ([], cs))
      else if c = CHR 0x5C then
        (case cs of
           [] \<Rightarrow> Some (Inl JSONDecodeError)
         | e # es \<Rightarrow>
             if e = CHR ''u'' then
               (case es of
                  a # b # c # d # rest \<Rightarrow>
                    (case (hex_val a, hex_val b, hex_val c, hex_val d) of
                       (Some x3, Some x2, Some x1, Some x0) \<Rightarrow>
                         (let uni = 4096 * x3 + 256 * x2 + 16 * x1 + x0 in
                          if uni < 256 then prepend (char_of uni) (scanstring rest)
                          else None)
                     | _ \<Rightarrow> Some (Inl JSONDecodeError))
                | _ \<Rightarrow> Some (Inl JSONDecodeError))
             else
               (case backslash e of
                  None \<Rightarrow> Some (Inl JSONDecodeError)
                | Some ch \<Rightarrow> prepend ch (scanstring es)))
      else if (of_char c :: nat) < 32 then Some (Inl JSONDecodeError)
      else prepend c (scanstring cs))"

definition int_of_digits :: "string \<Rightarrow> nat" where
  "int_of_digits ds = foldl (\<lambda>n d. 10 * n + (of_char d - 48)) 0 ds"

text \<open>Whether \<^verbatim>\<open>(\.\d+)?([eE][-+]?\d+)?\<close> of \<^verbatim>\<open>NUMBER_RE\<close> matches more than nothing.\<close>

definition frac_or_exp :: "string \<Rightarrow> bool" where
  "frac_or_exp s =
     (case s of
        c # d # ds \<Rightarrow>
          (c = CHR ''.'' \<and> is_digit d)
          \<or> ((c = CHR ''e'' \<or> c = CHR ''E'')
              \<and> (is_digit d \<or> ((d = CHR ''+'' \<or> d = CHR ''-'') \<and> (case ds of [] \<Rightarrow> False | x # xs \<Rightarrow> is_digit x))))
      | _ \<Rightarrow> False)"

text \<open>
  \<^verbatim>\<open>NUMBER_RE.match\<close>: the digits of the integer part and the text after them, when
  the text starts with \<^verbatim>\<open>0\<close> or with a non-zero digit.
\<close>

definition match_integer :: "string \<Rightarrow> (string \<times> string) option" where
  "match_integer s =
     (case s of
        [] \<Rightarrow> None
      | d # ds \<Rightarrow>
          if d = CHR ''0'' then Some ([d], ds)
          else if is_digit d then Some (d # takeWhile is_digit ds, dropWhile is_digit ds)
          else None)"

definition starts_with :: "string \<Rightarrow> string \<Rightarrow> bool" where
  "starts_with p s = (take (length p) s = p)"

definition scan_number :: "string \<Rightarrow> json scanned" where
  "scan_number s =
     (case (if take 1 s = ''-'' then match_integer (drop 1 s) else match_integer s) of
        Some (ds, rest) \<Rightarrow>
          if frac_or_exp rest then None
          else Some (Inr (JInt (if take 1 s = ''-'' then - int (int_of_digits ds)
                                else int (int_of_digits ds)), rest))
      | None \<Rightarrow>
          if starts_with ''NaN'' s \<or> starts_with ''Infinity'' s \<or> starts_with ''-Infinity'' s
          then None
          else Some (Inl JSONDecodeError))"

text \<open>
  \<^verbatim>\<open>scan_once\<close>, \<^verbatim>\<open>JSONArray\<close> and \<^verbatim>\<open>JSONObject\<close>. The first argument bounds the
  number of nested calls; \<open>json_loads\<close> gives twice the length of the text and one
  more: a call reads a character or calls one that does. \<open>parse_array\<close> starts at a
  value, \<open>parse_object\<close> at the character after the opening quote of a key; both take
  what was read before.
\<close>

fun scan_once :: "nat \<Rightarrow> string \<Rightarrow> json scanned"
and parse_array :: "nat \<Rightarrow> json list \<Rightarrow> string \<Rightarrow> json scanned"
and parse_object :: "nat \<Rightarrow> (string \<times> json) list \<Rightarrow> string \<Rightarrow> json scanned" where
  "scan_once 0 s = None"
| "scan_once (Suc n) s =
     (case s of
        [] \<Rightarrow> Some (Inl JSONDecodeError)
      | c # cs \<Rightarrow>
          if c = CHR 0x22 then
            (case scanstring cs of
               None \<Rightarrow> None
             | Some (Inl e) \<Rightarrow> Some (Inl e)
             | Some (Inr (str, rest)) \<Rightarrow> Some (Inr (JStr str, rest)))
          else if c = CHR ''{'' then
            (case skip_ws cs of
               [] \<Rightarrow> Some (Inl JSONDecodeError)
             | d # ds \<Rightarrow>
                 if d = CHR ''}'' then Some (Inr (JDict [], ds))
                 else if d = CHR 0x22 then parse_object n [] ds
                 else Some (Inl JSONDecodeError))
          else if c = CHR ''['' then
            (case skip_ws cs of
               [] \<Rightarrow> Some (Inl JSONDecodeError)
             | d # ds \<Rightarrow>
                 if d = CHR '']'' then Some (Inr (JList [], ds))
                 else parse_array n [] (d # ds))
          else if starts_with ''null'' s then Some (Inr (JNull, drop 4 s))
          else if starts_with ''true'' s then Some (Inr (JBool True, drop 4 s))
          else if starts_with ''false'' s then Some (Inr (JBool False, drop 5 s))
          else scan_number s)"
| "parse_array 0 acc s = None"
| "parse_array (Suc n) acc s =
     (case scan_once n s of
        None \<Rightarrow> None
      | Some (Inl e) \<Rightarrow> Some (Inl e)
      | Some (Inr (v, rest)) \<Rightarrow>
          (case skip_ws rest of
             [] \<Rightarrow> Some (Inl JSONDecodeError)
           | d # ds \<Rightarrow>
               if d = CHR '']'' then Some (Inr (JList (acc @ [v]), ds))
               else if d = CHR '','' then parse_array n (acc @ [v]) (skip_ws ds)
               else Some (Inl JSONDecodeError)))"
| "parse_object 0 acc s = None"
| "parse_object (Suc n) acc s =
     (case scanstring s of
        None \<Rightarrow> None
      | Some (Inl e) \<Rightarrow> Some (Inl e)
      | Some (Inr (key, rest)) \<Rightarrow>
          (case skip_ws rest of
             [] \<Rightarrow> Some (Inl JSONDecodeError)
           | c # cs \<Rightarrow>
               if c \<noteq> CHR '':'' then Some (Inl JSONDecodeError)
               else
                 (case scan_once n (skip_ws cs) of
                    None \<Rightarrow> None
                  | Some (Inl e) \<Rightarrow> Some (Inl e)
                  | Some (Inr (v, rest')) \<Rightarrow>
                      (case skip_ws rest' of
                         [] \<Rightarrow> Some (Inl JSONDecodeError)
                       | d # ds \<Rightarrow>
                           if d = CHR ''}'' then Some (Inr (JDict (AList.update key v acc), ds))
                           else if d = CHR '','' then
                             (case skip_ws ds of
                                [] \<Rightarrow> Some (Inl JSONDecodeError)
                              | q # qs \<Rightarrow>
                                  if q = CHR 0x22 then parse_object n (AList.update key v acc) qs
                                  else Some (Inl JSONDecodeError))
                           else Some (Inl JSONDecodeError)))))"

text \<open>\<^verbatim>\<open>JSONDecoder.decode\<close>: a value between whitespace, and nothing after it.\<close>

definition json_loads :: "string \<Rightarrow> (error + json) option" where
  "json_loads s =
     (case scan_once (Suc (2 * length s)) (skip_ws s) of
        None \<Rightarrow> None
      | Some (Inl e) \<Rightarrow> Some (Inl e)
      | Some (Inr (obj, rest)) \<Rightarrow>
          if skip_ws rest = [] then Some (Inr obj) else Some (Inl JSONDecodeError))"

section \<open>The designer\<close>

text \<open>
  The state of a \<^verbatim>\<open>ProjectDesigner\<close>: the structure, the rows of the tree view (a
  folder row for a dict value, a file row for every other value), the text of the
  status bar and the message boxes shown so far. A message box with an error carries
  the exception in place of its text.
\<close>

datatype tnode = Folder string "tnode list" | Leaf string

datatype dialog = ShowError string error | ShowInfo string

record designer =
  project_structure :: json
  tree_view :: "tnode list"
  status :: string
  dialogs :: "dialog list"

fun add_tree_node :: "json \<Rightarrow> tnode list"
and add_tree_items :: "(string \<times> json) list \<Rightarrow> tnode list" where
  "add_tree_node (JDict kvs) = add_tree_items kvs"
| "add_tree_node JNull = []"
| "add_tree_node (JBool b) = []"
| "add_tree_node (JInt i) = []"
| "add_tree_node (JStr s) = []"
| "add_tree_node (JList xs) = []"
| "add_tree_items [] = []"
| "add_tree_items ((name, content) # rest) =
     (if isinstance_dict content then Folder name (add_tree_node content) else Leaf name)
     # add_tree_items rest"

definition update_tree_view :: "designer \<Rightarrow> designer" where
  "update_tree_view ed = ed\<lparr>tree_view := add_tree_node (project_structure ed)\<rparr>"

text \<open>\<^verbatim>\<open>open(file_path)\<close> and the \<^verbatim>\<open>read\<close> of \<^verbatim>\<open>json.load\<close>.\<close>

definition read_text :: "string \<Rightarrow> world \<Rightarrow> error + string" where
  "read_text file_path w =
     (case resolve w (Path file_path) of
        Inl e \<Rightarrow> Inl e
      | Inr t \<Rightarrow>
          (case fs w t of
             None \<Rightarrow> Inl FileNotFoundError
           | Some Dir \<Rightarrow> Inl IsADirectoryError
           | Some (File text) \<Rightarrow> Inr text))"

text \<open>
  \<^verbatim>\<open>load_json\<close>, with the answer of the file dialog as \<open>file_path\<close> (empty when the
  dialog was cancelled). \<open>None\<close>: the file holds a value outside the model.
\<close>

definition load_json :: "string \<Rightarrow> world \<Rightarrow> designer \<Rightarrow> designer option" where
  "load_json file_path w ed =
     (if file_path = [] then Some ed
      else
        (case read_text file_path w of
           Inl e \<Rightarrow> Some (ed\<lparr>dialogs := dialogs ed @ [ShowError ''Failed to load JSON:'' e]\<rparr>)
         | Inr text \<Rightarrow>
             (case json_loads text of
                None \<Rightarrow> None
              | Some (Inl e) \<Rightarrow>
                  Some (ed\<lparr>dialogs := dialogs ed @ [ShowError ''Failed to load JSON:'' e]\<rparr>)
              | Some (Inr v) \<Rightarrow>
                  Some ((update_tree_view (ed\<lparr>project_structure := v\<rparr>))
                          \<lparr>status := ''Loaded structure from: '' @ file_path\<rparr>))))"

text \<open>
  \<^verbatim>\<open>save_json\<close>: an exception of \<^verbatim>\<open>open\<close> is not caught there; it is the first
  component of the result.
\<close>

definition save_json :: "string \<Rightarrow> designer \<times> world \<Rightarrow> error option \<times> designer \<times> world" where
  "save_json file_path x =
     (case x of (ed, w) \<Rightarrow>
        if file_path = [] then (None, ed, w)
        else
          (case write_text (Path file_path) (json_dumps (project_structure ed)) w of
             (Some e, w') \<Rightarrow> (Some e, ed, w')
           | (None, w') \<Rightarrow>
               (None, ed\<lparr>status := ''Structure saved to: '' @ file_path\<rparr>, w')))"


section \<open>Relations between trees\<close>

text \<open>
  \<open>le_fs f g\<close>: every directory of \<open>f\<close> is a directory of \<open>g\<close> and every file of \<open>f\<close> a
  file of \<open>g\<close>. \<open>newdirs f g\<close>: \<open>g\<close> is \<open>f\<close> with directories added. \<open>agree F f g\<close>: \<open>g\<close> is
  \<open>F\<close> but for files, where it may hold what \<open>f\<close> holds; it relates the tree \<open>g\<close> of a
  second run to the tree \<open>f\<close> of the first run at the same call and to the tree \<open>F\<close> the
  first run ended with.
\<close>

definition isfile :: "node option \<Rightarrow> bool" where
  "isfile x = (case x of Some (File s) \<Rightarrow> True | _ \<Rightarrow> False)"

definition le_fs :: "filesys \<Rightarrow> filesys \<Rightarrow> bool" where
  "le_fs f g = (\<forall>t. (f t = Some Dir \<longrightarrow> g t = Some Dir) \<and> (isfile (f t) \<longrightarrow> isfile (g t)))"

definition newdirs :: "filesys \<Rightarrow> filesys \<Rightarrow> bool" where
  "newdirs f g = (\<forall>u. g u = f u \<or> (f u = None \<and> g u = Some Dir))"

definition agree :: "filesys \<Rightarrow> filesys \<Rightarrow> filesys \<Rightarrow> bool" where
  "agree F f g = (\<forall>t. g t = F t \<or> (g t = f t \<and> isfile (g t) \<and> isfile (F t)))"

section \<open>Well-formed trees and the order of the calls\<close>

text \<open>
  A tree is well formed when the root directory exists and every entry lies in a
  directory; a world is, when its tree is and its working directory exists.
\<close>

definition fs_ok :: "filesys \<Rightarrow> bool" where
  "fs_ok f = (f [] = Some Dir \<and> (\<forall>t. t \<noteq> [] \<longrightarrow> f t \<noteq> None \<longrightarrow> f (butlast t) = Some Dir))"

definition world_ok :: "world \<Rightarrow> bool" where
  "world_ok w = (fs_ok (fs w) \<and> fs w (cwd w) = Some Dir)"

definition isdir :: "filesys \<Rightarrow> string list \<Rightarrow> bool" where
  "isdir f t = (f t = Some Dir)"

text \<open>
  \<open>parent_first D evs\<close>: every directory or file the events \<open>evs\<close> create lies in a
  directory that is in \<open>D\<close>, the directories at the start, or that an earlier event of
  \<open>evs\<close> made. \<open>dirs_after D evs\<close> are the directories after the events.
\<close>

fun dirs_after :: "(string list \<Rightarrow> bool) \<Rightarrow> event list \<Rightarrow> string list \<Rightarrow> bool" where
  "dirs_after D [] = D"
| "dirs_after D (Mkdir t # es) = dirs_after (\<lambda>u. u = t \<or> D u) es"
| "dirs_after D (Creat t # es) = dirs_after D es"
| "dirs_after D (Write t s # es) = dirs_after D es"

fun parent_first :: "(string list \<Rightarrow> bool) \<Rightarrow> event list \<Rightarrow> bool" where
  "parent_first D [] = True"
| "parent_first D (Mkdir t # es) = (t \<noteq> [] \<and> D (butlast t) \<and> parent_first (\<lambda>u. u = t \<or> D u) es)"
| "parent_first D (Creat t # es) = (t \<noteq> [] \<and> D (butlast t) \<and> parent_first D es)"
| "parent_first D (Write t s # es) = parent_first D es"

text \<open>The invariant of a run that started in the world \<open>w0\<close>.\<close>

definition traced :: "world \<Rightarrow> world \<Rightarrow> bool" where
  "traced w0 w = (world_ok w \<and> (\<exists>evs. trace w = trace w0 @ evs
     \<and> parent_first (isdir (fs w0)) evs
     \<and> isdir (fs w) = dirs_after (isdir (fs w0)) evs))"

section \<open>Key paths and the tree a structure describes\<close>

text \<open>
  A simple name is a single path component. \<open>key_paths\<close> lists, for every key of a
  nested mapping, the keys from the root of the mapping to it, with its child.
\<close>

definition simple_name :: "string \<Rightarrow> bool" where
  "simple_name n = (n \<noteq> [] \<and> n \<noteq> ''.'' \<and> n \<noteq> ''..'' \<and> CHR ''/'' \<notin> set n \<and> CHR 0x00 \<notin> set n)"

fun simple_keys :: "json \<Rightarrow> bool"
and simple_items :: "(string \<times> json) list \<Rightarrow> bool" where
  "simple_keys (JDict kvs) = (distinct (map fst kvs) \<and> simple_items kvs)"
| "simple_keys JNull = True"
| "simple_keys (JBool b) = True"
| "simple_keys (JInt i) = True"
| "simple_keys (JStr s) = True"
| "simple_keys (JList xs) = True"
| "simple_items [] = True"
| "simple_items ((k, v) # kvs) = (simple_name k \<and> simple_keys v \<and> simple_items kvs)"

fun key_paths :: "json \<Rightarrow> (string list \<times> json) list"
and items_paths :: "(string \<times> json) list \<Rightarrow> (string list \<times> json) list" where
  "key_paths (JDict kvs) = items_paths kvs"
| "key_paths JNull = []"
| "key_paths (JBool b) = []"
| "key_paths (JInt i) = []"
| "key_paths (JStr s) = []"
| "key_paths (JList xs) = []"
| "items_paths [] = []"
| "items_paths ((k, v) # kvs) =
     ([k], v) # map (\<lambda>(p, x). (k # p, x)) (key_paths v) @ items_paths kvs"

text \<open>
  What a child becomes, and whether the tree has nothing in the way of the entries of
  a list of key paths under the directory \<open>B\<close>.
\<close>

definition node_of :: "json \<Rightarrow> node" where
  "node_of v = (if isinstance_dict v \<or> v = JNull then Dir else File (py_str v))"

definition fits_node :: "node option \<Rightarrow> json \<Rightarrow> bool" where
  "fits_node n v =
     (case n of None \<Rightarrow> True
      | Some Dir \<Rightarrow> isinstance_dict v \<or> v = JNull
      | Some (File s) \<Rightarrow> \<not> (isinstance_dict v \<or> v = JNull))"

definition fits :: "filesys \<Rightarrow> string list \<Rightarrow> (string list \<times> json) list \<Rightarrow> bool" where
  "fits f B ps = list_all (\<lambda>(p, v). fits_node (f (B @ p)) v) ps"

text \<open>
  The tree a traversal over simple keys leaves: \<open>lay B v f\<close> follows \<^verbatim>\<open>_create\<close> on the
  tree alone, with the directory \<open>B\<close> as base. It is used in the proofs only.
\<close>

fun lay :: "string list \<Rightarrow> json \<Rightarrow> filesys \<Rightarrow> filesys"
and lay_items :: "string list \<Rightarrow> (string \<times> json) list \<Rightarrow> filesys \<Rightarrow> filesys" where
  "lay B (JDict kvs) f = lay_items B kvs f"
| "lay B JNull f = f"
| "lay B (JBool b) f = f"
| "lay B (JInt i) f = f"
| "lay B (JStr s) f = f"
| "lay B (JList xs) f = f"
| "lay_items B [] f = f"
| "lay_items B ((k, v) # kvs) f =
     lay_items B kvs
       (if isinstance_dict v \<or> v = JNull then lay (B @ [k]) v (f(B @ [k] \<mapsto> Dir))
        else f(B @ [k] \<mapsto> File (py_str v)))"

section \<open>Notions for the JSON round trip\<close>

text \<open>
  \<open>delim\<close>: what may follow a value in an encoded text. \<open>cost\<close>: a bound on the nested
  calls that decode a value. \<open>decodes v\<close>: the scanner reads the encoded \<open>v\<close> back, at
  every indentation level and before every such rest.
\<close>

definition delim :: "string \<Rightarrow> bool" where
  "delim rest = (case rest of [] \<Rightarrow> True | c # cs \<Rightarrow> c = CHR '','' \<or> c = CHR 0x0A)"

fun cost :: "json \<Rightarrow> nat"
and cost_list :: "json list \<Rightarrow> nat"
and cost_items :: "(string \<times> json) list \<Rightarrow> nat" where
  "cost (JList xs) = Suc (cost_list xs)"
| "cost (JDict kvs) = Suc (cost_items kvs)"
| "cost JNull = 1"
| "cost (JBool b) = 1"
| "cost (JInt i) = 1"
| "cost (JStr s) = 1"
| "cost_list [] = 0"
| "cost_list (x # xs) = Suc (cost x + cost_list xs)"
| "cost_items [] = 0"
| "cost_items (kv # kvs) = Suc (cost (snd kv) + cost_items kvs)"

text \<open>The first character of an encoded value.\<close>

definition value_start :: "string \<Rightarrow> bool" where
  "value_start s = (case s of [] \<Rightarrow> False | c # cs \<Rightarrow> \<not> is_ws c \<and> c \<noteq> CHR '']'')"

definition decodes :: "json \<Rightarrow> bool" where
  "decodes v = (wf_json v \<longrightarrow> (\<forall>n l rest. cost v \<le> n \<longrightarrow> delim rest \<longrightarrow>
     scan_once n (iterencode l v @ rest) = Some (Inr (v, rest))))"

text \<open>
  \<open>consumes n\<close>: a call with \<open>n\<close> nested calls left that reads a value leaves a shorter
  text. \<open>enough n\<close>: from a text that is short for \<open>n\<close>, one more nested call changes no
  result.
\<close>

definition consumes :: "nat \<Rightarrow> bool" where
  "consumes n =
     ((\<forall>s v rest. scan_once n s = Some (Inr (v, rest)) \<longrightarrow> length rest < length s)
      \<and> (\<forall>acc s v rest. parse_array n acc s = Some (Inr (v, rest)) \<longrightarrow> length rest < length s)
      \<and> (\<forall>acc s v rest. parse_object n acc s = Some (Inr (v, rest)) \<longrightarrow> length rest < length s))"

definition enough :: "nat \<Rightarrow> bool" where
  "enough n =
     ((\<forall>s. 2 * length s + 1 \<le> n \<longrightarrow> scan_once (Suc n) s = scan_once n s)
      \<and> (\<forall>acc s. 2 * length s + 2 \<le> n \<longrightarrow> parse_array (Suc n) acc s = parse_array n acc s)
      \<and> (\<forall>acc s. 2 * length s + 2 \<le> n \<longrightarrow> parse_object (Suc n) acc s = parse_object n acc s))"

section \<open>The pairs of a structure and the calls of a run\<close>

text \<open>
  \<open>entries base v\<close>: the pairs of the nested mapping \<open>v\<close>, at every depth, each with
  the path \<^verbatim>\<open>_create\<close> joins for it: \<^verbatim>\<open>base / name\<close>, where the base of an inner
  mapping is the path of its own pair. The keys are arbitrary here.
\<close>

fun entries :: "ppath \<Rightarrow> json \<Rightarrow> (ppath \<times> json) list"
and entries_items :: "ppath \<Rightarrow> (string \<times> json) list \<Rightarrow> (ppath \<times> json) list" where
  "entries base (JDict kvs) = entries_items base kvs"
| "entries base JNull = []"
| "entries base (JBool b) = []"
| "entries base (JInt i) = []"
| "entries base (JStr s) = []"
| "entries base (JList xs) = []"
| "entries_items base [] = []"
| "entries_items base ((name, subcontent) # rest) =
     (joinpath base name, subcontent) # entries (joinpath base name) subcontent
       @ entries_items base rest"

text \<open>
  \<open>step_of f B (p, v)\<close>: the calls that change the tree when the traversal is at the
  key path \<open>p\<close> under the directory \<open>B\<close> and the tree had \<open>f\<close> at the start: a
  \<^verbatim>\<open>mkdir\<close> for a mapping or null child unless the directory is there, and for any
  other child the writing of \<^verbatim>\<open>str(child)\<close>, after the creation of the file unless it
  is there. \<open>steps\<close> are these calls for a list of key paths, in the order of the list.
\<close>

definition step_of :: "filesys \<Rightarrow> string list \<Rightarrow> string list \<times> json \<Rightarrow> event list" where
  "step_of f B x = (case x of (p, v) \<Rightarrow>
     if isinstance_dict v \<or> v = JNull then (if f (B @ p) = None then [Mkdir (B @ p)] else [])
     else (if f (B @ p) = None then [Creat (B @ p), Write (B @ p) (py_str v)]
           else [Write (B @ p) (py_str v)]))"

definition steps :: "filesys \<Rightarrow> string list \<Rightarrow> (string list \<times> json) list \<Rightarrow> event list" where
  "steps f B ps = concat (map (step_of f B) ps)"

section \<open>A concrete world and the structure of the specification's example\<close>

definition example_world :: world where
  "example_world =
     \<lparr>fs = [[] \<mapsto> Dir, [''tmp''] \<mapsto> Dir, [''tmp'', ''x''] \<mapsto> Dir],
      cwd = [''tmp''], stdout = [], trace = []\<rparr>"

definition example_structure :: json where
  "example_structure = JDict [(''a'', JDict [(''b.txt'', JStr ''hi''), (''c'', JDict [])])]"

text \<open>The world after the example has been materialized under \<^verbatim>\<open>/tmp/x\<close>.\<close>

definition example_world_after :: world where
  "example_world_after = snd (create_structure ''/tmp/x'' example_structure example_world)"

definition example_designer :: designer where
  "example_designer =
     \<lparr>project_structure = example_structure, tree_view = add_tree_node example_structure,
      status = ''Ready'', dialogs = []\<rparr>"

text \<open>A world with a file that is no JSON text.\<close>

definition example_world_bad :: world where
  "example_world_bad =
     example_world\<lparr>fs := (fs example_world)([''tmp'', ''bad.json''] \<mapsto> File ''[1,]'')\<rparr>"

text \<open>
  Pairs with children of every kind but a float: a boolean, and a list that holds a
  number, \<^verbatim>\<open>None\<close>, strings with each quote, with both, with a backslash, a newline,
  a control character and a letter beyond ASCII, a dict and a list.
\<close>

definition example_values :: "(string \<times> json) list" where
  "example_values =
     [(''d'', JDict [(''t.txt'', JBool True),
        (''l.txt'', JList [JInt (- 7), JNull, JStr [CHR ''i'', CHR ''t'', CHR 0x27, CHR ''s''],
           JStr [CHR ''a'', CHR 0x22, CHR ''b'', CHR 0x27, CHR ''c'', CHR 0x5C, CHR ''d'', CHR 0x0A],
           JStr [CHR 0x01, CHR 0xE9], JDict [(''k'', JStr ''v'')], JList []])])]"

section \<open>Properties of the filesystem calls\<close>

lemma isfile_simps [simp]:
  "isfile None = False" "isfile (Some Dir) = False" "isfile (Some (File s)) = True"
  by (simp_all add: isfile_def)

lemma le_fs_refl [simp]: "le_fs f f"
  by (simp add: le_fs_def)

lemma le_fs_trans: "le_fs f g \<Longrightarrow> le_fs g h \<Longrightarrow> le_fs f h"
  by (simp add: le_fs_def)

lemma le_fs_upd_none: "f t = None \<Longrightarrow> le_fs f (f(t \<mapsto> n))"
  by (auto simp: le_fs_def)

lemma walk_mono:
  "walk f cur cs = Inr t \<Longrightarrow> (\<And>u. f u = Some Dir \<Longrightarrow> g u = Some Dir) \<Longrightarrow> walk g cur cs = Inr t"
  by (induction cs arbitrary: cur) (auto split: option.splits node.splits)

lemma resolve_mono:
  "resolve w p = Inr t \<Longrightarrow> cwd v = cwd w \<Longrightarrow> (\<And>u. fs w u = Some Dir \<Longrightarrow> fs v u = Some Dir)
   \<Longrightarrow> resolve v p = Inr t"
  by (auto simp: resolve_def split: if_splits intro: walk_mono)

lemma os_mkdir_None:
  "os_mkdir p w = (None, w') \<Longrightarrow>
     \<exists>t. resolve w p = Inr t \<and> fs w t = None
       \<and> w' = w\<lparr>fs := (fs w)(t \<mapsto> Dir), trace := trace w @ [Mkdir t]\<rparr>"
  unfolding os_mkdir_def
  by (cases "resolve w p"; simp split: option.splits)

lemma os_mkdir_Some:
  "os_mkdir p w = (Some e, w') \<Longrightarrow>
     w' = w \<and> (resolve w p = Inl e
       \<or> (e = FileExistsError \<and> (\<exists>t n. resolve w p = Inr t \<and> fs w t = Some n)))"
  unfolding os_mkdir_def
  by (cases "resolve w p"; simp split: option.splits)

lemma os_mkdir_grow:
  "os_mkdir p w = (r, w') \<Longrightarrow> cwd w' = cwd w \<and> le_fs (fs w) (fs w')"
  by (cases r) (auto dest!: os_mkdir_None os_mkdir_Some intro: le_fs_upd_none)

lemma mkdir_noparents_grow:
  "mkdir_noparents p w = (r, w') \<Longrightarrow> cwd w' = cwd w \<and> le_fs (fs w) (fs w')"
  by (auto simp: mkdir_noparents_def split: prod.splits option.splits if_splits dest: os_mkdir_grow)

lemma path_mkdir_grow:
  "path_mkdir p w = (r, w') \<Longrightarrow> cwd w' = cwd w \<and> le_fs (fs w) (fs w')"
proof (induction p w arbitrary: r w' rule: path_mkdir.induct)
  case (1 p w)
  obtain r0 w0 where o: "os_mkdir p w = (r0, w0)" by (cases "os_mkdir p w")
  note g0 = os_mkdir_grow [OF o]
  show ?case
  proof (cases "r0 = Some FileNotFoundError \<and> parent p \<noteq> p")
    case True
    obtain r1 w1 where pm: "path_mkdir (parent p) w0 = (r1, w1)" by (cases "path_mkdir (parent p) w0")
    from "1.IH" [OF o [symmetric] _ _ _ pm] True
    have g1: "cwd w1 = cwd w0 \<and> le_fs (fs w0) (fs w1)" by auto
    show ?thesis
    proof (cases r1)
      case None
      with "1.prems" o True pm have "mkdir_noparents p w1 = (r, w')"
        by (simp add: path_mkdir.simps [of p w])
      from mkdir_noparents_grow [OF this] g0 g1 show ?thesis
        by (auto intro: le_fs_trans)
    next
      case (Some e)
      with "1.prems" o True pm have "w' = w1"
        by (simp add: path_mkdir.simps [of p w])
      with g0 g1 show ?thesis by (auto intro: le_fs_trans)
    qed
  next
    case False
    with "1.prems" o have "w' = w0"
      by (auto simp: path_mkdir.simps [of p w] split: option.splits if_splits)
    with g0 show ?thesis by simp
  qed
qed

lemma write_text_None:
  "write_text p s w = (None, w') \<Longrightarrow>
     \<exists>t. resolve w p = Inr t \<and> fs w t \<noteq> Some Dir \<and> fs w' = (fs w)(t \<mapsto> File s)
       \<and> cwd w' = cwd w \<and> stdout w' = stdout w
       \<and> trace w' = trace w @ (if fs w t = None then [Creat t, Write t s] else [Write t s])"
  unfolding write_text_def
  by (cases "resolve w p"; simp split: option.splits node.splits) auto

lemma write_text_Some:
  "write_text p s w = (Some e, w') \<Longrightarrow>
     w' = w \<and> (resolve w p = Inl e
       \<or> (e = IsADirectoryError \<and> (\<exists>t. resolve w p = Inr t \<and> fs w t = Some Dir)))"
  unfolding write_text_def
  by (cases "resolve w p"; simp split: option.splits node.splits)

lemma write_text_ok:
  "resolve w p = Inr t \<Longrightarrow> fs w t \<noteq> Some Dir \<Longrightarrow>
     \<exists>w'. write_text p s w = (None, w') \<and> fs w' = (fs w)(t \<mapsto> File s) \<and> cwd w' = cwd w"
  unfolding write_text_def by (simp split: option.splits node.splits)

lemma write_text_grow:
  "write_text p s w = (r, w') \<Longrightarrow> cwd w' = cwd w \<and> le_fs (fs w) (fs w')"
  by (cases r) (auto dest!: write_text_None write_text_Some simp: le_fs_def isfile_def
      split: option.splits node.splits if_splits)

lemma touch_None:
  "touch p w = (None, w') \<Longrightarrow>
     \<exists>t. resolve w p = Inr t \<and> cwd w' = cwd w \<and> stdout w' = stdout w
       \<and> (if fs w t = None
            then fs w' = (fs w)(t \<mapsto> File []) \<and> trace w' = trace w @ [Creat t]
            else w' = w)"
  unfolding touch_def
  by (cases "resolve w p"; simp split: option.splits) auto

lemma touch_Some:
  "touch p w = (Some e, w') \<Longrightarrow> w' = w \<and> resolve w p = Inl e"
  unfolding touch_def
  by (cases "resolve w p"; simp split: option.splits)

lemma touch_grow:
  "touch p w = (r, w') \<Longrightarrow> cwd w' = cwd w \<and> le_fs (fs w) (fs w')"
  by (cases r) (auto dest!: touch_None touch_Some simp: le_fs_def split: if_splits)

lemma say_simps [simp]:
  "fs (say l w) = fs w" "cwd (say l w) = cwd w" "trace (say l w) = trace w"
  "stdout (say l w) = stdout w @ [l]"
  by (simp_all add: say_def)

lemma create_grow:
  "create base c w = (r, w') \<Longrightarrow> cwd w' = cwd w \<and> le_fs (fs w) (fs w')"
  "create_items base kvs w = (r, w') \<Longrightarrow> cwd w' = cwd w \<and> le_fs (fs w) (fs w')"
proof (induction base c w and base kvs w arbitrary: r w' and r w' rule: create_create_items.induct)
  case (3 base s w)
  then show ?case
    by (auto simp: Let_def split: prod.splits option.splits dest: touch_grow)
next
  case (8 base name subcontent rest w)
  let ?path = "joinpath base name"
  show ?case
  proof (cases "isinstance_dict subcontent \<or> subcontent = JNull")
    case True
    obtain r1 w1 where m: "path_mkdir ?path w = (r1, w1)" by (cases "path_mkdir ?path w")
    note g1 = path_mkdir_grow [OF m]
    show ?thesis
    proof (cases r1)
      case (Some e)
      with "8.prems" True m g1 show ?thesis by (simp add: Let_def)
    next
      case None
      let ?w1 = "say (''Created directory: '' @ path_str ?path) w1"
      obtain r2 w2 where c: "create ?path subcontent ?w1 = (r2, w2)"
        by (cases "create ?path subcontent ?w1")
      from "8.IH"(1) [OF refl True _ _ c] m None
      have g2: "cwd w2 = cwd w1 \<and> le_fs (fs w1) (fs w2)" by simp
      show ?thesis
      proof (cases r2)
        case (Some e)
        with "8.prems" True m None c g1 g2 show ?thesis
          by (auto simp: Let_def intro: le_fs_trans)
      next
        case n2: None
        with "8.prems" True m None c have "create_items base rest w2 = (r, w')"
          by (simp add: Let_def)
        from "8.IH"(2) [OF refl _ _ this] True m None c n2
        have "cwd w' = cwd w2 \<and> le_fs (fs w2) (fs w')" by (simp add: Let_def)
        with g1 g2 show ?thesis by (auto intro: le_fs_trans)
      qed
    qed
  next
    case False
    obtain r1 w1 where m: "write_text ?path (py_str subcontent) w = (r1, w1)"
      by (cases "write_text ?path (py_str subcontent) w")
    note g1 = write_text_grow [OF m]
    show ?thesis
    proof (cases r1)
      case (Some e)
      with "8.prems" False m g1 show ?thesis by (simp add: Let_def)
    next
      case None
      with "8.prems" False m have "create_items base rest (say (''Created file: '' @ path_str ?path) w1) = (r, w')"
        by (simp add: Let_def)
      from "8.IH"(2) [OF refl _ _ this] False m None
      have "cwd w' = cwd w1 \<and> le_fs (fs w1) (fs w')" by (simp add: Let_def)
      with g1 show ?thesis by (auto intro: le_fs_trans)
    qed
  qed
qed auto

lemma newdirs_refl [simp]: "newdirs f f"
  by (simp add: newdirs_def)

lemma newdirs_trans: "newdirs f g \<Longrightarrow> newdirs g h \<Longrightarrow> newdirs f h"
  unfolding newdirs_def by metis

lemma path_mkdir_unfold:
  "path_mkdir p w =
     (case os_mkdir p w of
        (None, w') \<Rightarrow> (None, w')
      | (Some e, w') \<Rightarrow>
          if e = FileNotFoundError then
            (if parent p = p then (Some e, w')
             else (case path_mkdir (parent p) w' of
                     (None, w1) \<Rightarrow> mkdir_noparents p w1
                   | (Some e1, w1) \<Rightarrow> (Some e1, w1)))
          else if is_oserror e \<and> is_dir p w' then (None, w')
          else (Some e, w'))"
  by (rule path_mkdir.simps)

lemma mkdir_noparents_invariant:
  assumes "\<And>q w r w'. os_mkdir q w = (r, w') \<Longrightarrow> P w \<Longrightarrow> P w'"
  shows "mkdir_noparents p w = (r, w') \<Longrightarrow> P w \<Longrightarrow> P w'"
  unfolding mkdir_noparents_def
  by (cases "os_mkdir p w") (auto split: option.splits if_splits dest: assms)

lemma path_mkdir_invariant:
  assumes step: "\<And>q w r w'. os_mkdir q w = (r, w') \<Longrightarrow> P w \<Longrightarrow> P w'"
  shows "path_mkdir p w = (r, w') \<Longrightarrow> P w \<Longrightarrow> P w'"
proof (induction p w arbitrary: r w' rule: path_mkdir.induct)
  case (1 p w)
  obtain r0 w0 where o: "os_mkdir p w = (r0, w0)" by (cases "os_mkdir p w")
  from step [OF o "1.prems"(2)] have p0: "P w0" .
  show ?case
  proof (cases "r0 = Some FileNotFoundError \<and> parent p \<noteq> p")
    case True
    obtain r1 w1 where pm: "path_mkdir (parent p) w0 = (r1, w1)"
      by (cases "path_mkdir (parent p) w0")
    from "1.IH" [OF o [symmetric] _ _ _ pm p0] True have p1: "P w1" by auto
    show ?thesis
    proof (cases r1)
      case None
      with "1.prems"(1) o True pm have "mkdir_noparents p w1 = (r, w')"
        by (simp add: path_mkdir_unfold [of p w])
      from mkdir_noparents_invariant [of P, OF step this p1] show ?thesis .
    next
      case (Some e)
      with "1.prems"(1) o True pm have "w' = w1"
        by (simp add: path_mkdir_unfold [of p w])
      with p1 show ?thesis by simp
    qed
  next
    case False
    with "1.prems"(1) o have "w' = w0"
      by (auto simp: path_mkdir_unfold [of p w] split: option.splits if_splits)
    with p0 show ?thesis by simp
  qed
qed

lemma os_mkdir_frame:
  "os_mkdir p w = (r, w') \<Longrightarrow> cwd w' = cwd w \<and> stdout w' = stdout w \<and> newdirs (fs w) (fs w')"
  by (cases r) (auto dest!: os_mkdir_None os_mkdir_Some simp: newdirs_def split: if_splits)

lemma path_mkdir_frame:
  assumes "path_mkdir p w = (r, w')"
  shows "cwd w' = cwd w \<and> stdout w' = stdout w \<and> newdirs (fs w) (fs w')"
proof -
  let ?P = "\<lambda>x. cwd x = cwd w \<and> stdout x = stdout w \<and> newdirs (fs w) (fs x)"
  have "?P w'"
  proof (rule path_mkdir_invariant [where P = ?P, OF _ assms])
    fix q x r x' assume "os_mkdir q x = (r, x')" and "?P x"
    with os_mkdir_frame [of q x r x'] show "?P x'" by (auto intro: newdirs_trans)
  qed simp
  then show ?thesis .
qed

lemma resolve_upd_dir:
  "resolve w p = Inr t \<Longrightarrow> fs w u = None \<Longrightarrow>
     resolve (w\<lparr>fs := (fs w)(u \<mapsto> Dir), trace := tr\<rparr>) p = Inr t"
  by (rule resolve_mono) auto

lemma os_mkdir_post:
  "os_mkdir p w = (None, w') \<Longrightarrow> \<exists>t. resolve w' p = Inr t \<and> fs w' t = Some Dir"
  by (auto dest!: os_mkdir_None intro: resolve_upd_dir)

lemma is_dir_post: "is_dir p w \<Longrightarrow> \<exists>t. resolve w p = Inr t \<and> fs w t = Some Dir"
  by (simp add: is_dir_def split: sum.splits)

lemma mkdir_noparents_post:
  "mkdir_noparents p w = (None, w') \<Longrightarrow> \<exists>t. resolve w' p = Inr t \<and> fs w' t = Some Dir"
  unfolding mkdir_noparents_def
  by (cases "os_mkdir p w")
     (auto split: option.splits if_splits dest: os_mkdir_post is_dir_post)

lemma path_mkdir_post:
  assumes "path_mkdir p w = (None, w')"
  shows "\<exists>t. resolve w' p = Inr t \<and> fs w' t = Some Dir"
proof -
  obtain r0 w0 where o: "os_mkdir p w = (r0, w0)" by (cases "os_mkdir p w")
  show ?thesis
  proof (cases r0)
    case None
    with assms o have "w' = w0" by (simp add: path_mkdir_unfold [of p w])
    with o None show ?thesis by (auto dest: os_mkdir_post)
  next
    case (Some e)
    show ?thesis
    proof (cases "e = FileNotFoundError")
      case True
      with assms o Some obtain w1 where "mkdir_noparents p w1 = (None, w')"
        by (auto simp: path_mkdir_unfold [of p w] split: if_splits prod.splits option.splits)
      then show ?thesis by (rule mkdir_noparents_post)
    next
      case False
      with assms o Some have "is_dir p w0" "w' = w0"
        by (auto simp: path_mkdir_unfold [of p w] split: if_splits)
      then show ?thesis by (auto dest: is_dir_post)
    qed
  qed
qed

lemma path_mkdir_exists:
  assumes "resolve w p = Inr t" and "fs w t = Some Dir"
  shows "path_mkdir p w = (None, w)"
proof -
  from assms have "os_mkdir p w = (Some FileExistsError, w)"
    by (simp add: os_mkdir_def)
  moreover from assms have "is_dir p w" by (simp add: is_dir_def)
  ultimately show ?thesis
    by (simp add: path_mkdir_unfold [of p w] is_oserror_def)
qed

lemma path_mkdir_fresh:
  assumes "resolve w p = Inr t" and "fs w t = None"
  shows "path_mkdir p w = (None, w\<lparr>fs := (fs w)(t \<mapsto> Dir), trace := trace w @ [Mkdir t]\<rparr>)"
  using assms by (simp add: path_mkdir_unfold [of p w] os_mkdir_def)

lemma agree_self [simp]: "agree F f F"
  by (simp add: agree_def)

lemma agree_final: "agree F F g \<Longrightarrow> g = F"
  by (auto simp: agree_def)

lemma agree_dirs:
  "agree F f g \<Longrightarrow> le_fs f F \<Longrightarrow> f u = Some Dir \<Longrightarrow> g u = Some Dir"
  unfolding agree_def le_fs_def by (metis isfile_simps(2))

lemma agree_isfile: "agree F f g \<Longrightarrow> isfile (F t) \<Longrightarrow> isfile (g t)"
  unfolding agree_def by metis

lemma agree_exists: "agree F f g \<Longrightarrow> F t \<noteq> None \<Longrightarrow> g t \<noteq> None"
  unfolding agree_def by (metis isfile_simps(1))

lemma agree_resolve:
  assumes "agree F (fs w) (fs v)" "le_fs (fs w) F" "cwd v = cwd w" "resolve w p = Inr t"
  shows "resolve v p = Inr t"
  using assms(4,3) by (rule resolve_mono) (rule agree_dirs [OF assms(1,2)])

lemma sim_path_mkdir:
  assumes run: "path_mkdir p w = (None, w')"
    and F: "le_fs (fs w') F" and a: "agree F (fs w) (fs v)" and c: "cwd v = cwd w"
  shows "path_mkdir p v = (None, v) \<and> agree F (fs w') (fs v)"
proof -
  from path_mkdir_frame [OF run] have fr: "cwd w' = cwd w" "newdirs (fs w) (fs w')" by simp_all
  from path_mkdir_post [OF run] obtain t where t: "resolve w' p = Inr t" "fs w' t = Some Dir"
    by blast
  have a': "agree F (fs w') (fs v)"
    unfolding agree_def
  proof
    fix u
    from a have "fs v u = F u \<or> (fs v u = fs w u \<and> isfile (fs v u) \<and> isfile (F u))"
      by (simp add: agree_def)
    moreover from fr(2) have "fs w' u = fs w u \<or> fs w u = None"
      by (auto simp: newdirs_def)
    ultimately show "fs v u = F u \<or> (fs v u = fs w' u \<and> isfile (fs v u) \<and> isfile (F u))"
      by auto
  qed
  from c fr have c': "cwd v = cwd w'" by simp
  have "resolve v p = Inr t" by (rule agree_resolve [OF a' F c' t(1)])
  moreover have "fs v t = Some Dir" by (rule agree_dirs [OF a' F t(2)])
  ultimately show ?thesis using a' by (simp add: path_mkdir_exists)
qed

lemma sim_write_text:
  assumes run: "write_text p s w = (None, w')"
    and F: "le_fs (fs w') F" and a: "agree F (fs w) (fs v)" and c: "cwd v = cwd w"
  shows "\<exists>v'. write_text p s v = (None, v') \<and> agree F (fs w') (fs v') \<and> cwd v' = cwd w'"
proof -
  from write_text_None [OF run] obtain t where t: "resolve w p = Inr t"
    and w': "fs w' = (fs w)(t \<mapsto> File s)" "cwd w' = cwd w" by blast
  from write_text_grow [OF run] have g: "le_fs (fs w) (fs w')" by simp
  have lw: "le_fs (fs w) F" by (rule le_fs_trans [OF g F])
  have rv: "resolve v p = Inr t" by (rule agree_resolve [OF a lw c t])
  from F w' have "isfile (F t)" by (simp add: le_fs_def)
  with a have "isfile (fs v t)" by (rule agree_isfile)
  then have "fs v t \<noteq> Some Dir" by auto
  from write_text_ok [OF rv this, of s] obtain v' where
    v': "write_text p s v = (None, v')" "fs v' = (fs v)(t \<mapsto> File s)" "cwd v' = cwd v" by blast
  have "agree F (fs w') (fs v')"
    using a \<open>isfile (F t)\<close> by (auto simp: agree_def w' v')
  with v' c w' show ?thesis by auto
qed

lemma sim_touch:
  assumes run: "touch p w = (None, w')"
    and F: "le_fs (fs w') F" and a: "agree F (fs w) (fs v)" and c: "cwd v = cwd w"
  shows "touch p v = (None, v) \<and> agree F (fs w') (fs v)"
proof -
  from touch_None [OF run] obtain t where t: "resolve w p = Inr t" and cw: "cwd w' = cwd w"
    and w': "if fs w t = None then fs w' = (fs w)(t \<mapsto> File []) else w' = w"
    by (auto split: if_splits)
  from touch_grow [OF run] have g: "le_fs (fs w) (fs w')" by simp
  have lw: "le_fs (fs w) F" by (rule le_fs_trans [OF g F])
  have rv: "resolve v p = Inr t" by (rule agree_resolve [OF a lw c t])
  from w' have "fs w' t \<noteq> None" by (auto split: if_splits)
  with F have "F t \<noteq> None"
    by (cases "fs w' t") (auto simp: le_fs_def isfile_def split: node.splits option.splits)
  with a have "fs v t \<noteq> None" by (rule agree_exists)
  with rv have "touch p v = (None, v)" by (auto simp: touch_def)
  moreover have "agree F (fs w') (fs v)"
    unfolding agree_def
  proof
    fix u
    from a have d: "fs v u = F u \<or> (fs v u = fs w u \<and> isfile (fs v u) \<and> isfile (F u))"
      by (simp add: agree_def)
    show "fs v u = F u \<or> (fs v u = fs w' u \<and> isfile (fs v u) \<and> isfile (F u))"
    proof (cases "u = t \<and> fs w t = None")
      case True
      with \<open>fs v t \<noteq> None\<close> have "fs v u \<noteq> fs w u" by simp
      with d show ?thesis by simp
    next
      case False
      with w' have "fs w' u = fs w u" by (auto split: if_splits)
      with d show ?thesis by simp
    qed
  qed
  ultimately show ?thesis by simp
qed

lemma sim_create:
  "create base c w = (None, w') \<Longrightarrow> le_fs (fs w') F \<Longrightarrow> agree F (fs w) (fs v) \<Longrightarrow>
     cwd v = cwd w \<Longrightarrow>
     \<exists>v'. create base c v = (None, v') \<and> agree F (fs w') (fs v') \<and> cwd v' = cwd w'"
  "create_items base kvs w = (None, w') \<Longrightarrow> le_fs (fs w') F \<Longrightarrow> agree F (fs w) (fs v) \<Longrightarrow>
     cwd v = cwd w \<Longrightarrow>
     \<exists>v'. create_items base kvs v = (None, v') \<and> agree F (fs w') (fs v') \<and> cwd v' = cwd w'"
proof (induction base c w and base kvs w arbitrary: w' v and w' v
    rule: create_create_items.induct)
  case (1 base kvs w)
  then show ?case by simp
next
  case (2 base w)
  then show ?case by simp
next
  case (3 base s w)
  let ?path = "joinpath base s"
  from "3.prems"(1) obtain w1 where t: "touch ?path w = (None, w1)"
    and w': "w' = say (''Created file: '' @ path_str ?path) w1"
    by (auto simp: Let_def split: prod.splits option.splits)
  from "3.prems"(2) w' have "le_fs (fs w1) F" by simp
  from sim_touch [OF t this "3.prems"(3,4)] touch_grow [OF t] w' "3.prems"(4)
  show ?case by (auto simp: Let_def)
next
  case (8 base name subcontent rest w)
  let ?path = "joinpath base name"
  show ?case
  proof (cases "isinstance_dict subcontent \<or> subcontent = JNull")
    case True
    let ?line = "''Created directory: '' @ path_str ?path"
    from "8.prems"(1) True obtain w1 w2 where m: "path_mkdir ?path w = (None, w1)"
      and c: "create ?path subcontent (say ?line w1) = (None, w2)"
      and r: "create_items base rest w2 = (None, w')"
      by (auto simp: Let_def split: prod.splits option.splits)
    from create_grow(2) [OF r] have g3: "le_fs (fs w2) (fs w')" by simp
    from create_grow(1) [OF c] have g2: "le_fs (fs w1) (fs w2)" by simp
    have F2: "le_fs (fs w2) F" by (rule le_fs_trans [OF g3 "8.prems"(2)])
    have F1: "le_fs (fs w1) F" by (rule le_fs_trans [OF g2 F2])
    from sim_path_mkdir [OF m F1 "8.prems"(3,4)]
    have mv: "path_mkdir ?path v = (None, v)" and a1: "agree F (fs w1) (fs v)" by simp_all
    from path_mkdir_frame [OF m] "8.prems"(4) have c1: "cwd v = cwd w1" by simp
    from "8.IH"(1) [OF refl True m [symmetric] refl c F2, where v = "say ?line v"] a1 c1
    obtain v2 where cv: "create ?path subcontent (say ?line v) = (None, v2)"
      and a2: "agree F (fs w2) (fs v2)" and c2: "cwd v2 = cwd w2" by auto
    have "\<exists>v'. create_items base rest v2 = (None, v') \<and> agree F (fs w') (fs v') \<and> cwd v' = cwd w'"
      by (rule "8.IH"(2) [OF refl _ refl r "8.prems"(2) a2 c2]) (use True m c in simp_all)
    with mv cv True show ?thesis by (auto simp: Let_def)
  next
    case False
    let ?line = "''Created file: '' @ path_str ?path"
    from "8.prems"(1) False obtain w1 where m: "write_text ?path (py_str subcontent) w = (None, w1)"
      and r: "create_items base rest (say ?line w1) = (None, w')"
      by (auto simp: Let_def split: prod.splits option.splits)
    from create_grow(2) [OF r] have g3: "le_fs (fs w1) (fs w')" by simp
    have F1: "le_fs (fs w1) F" by (rule le_fs_trans [OF g3 "8.prems"(2)])
    from sim_write_text [OF m F1 "8.prems"(3,4)] obtain v1 where
      mv: "write_text ?path (py_str subcontent) v = (None, v1)"
      and a1: "agree F (fs w1) (fs v1)" and c1: "cwd v1 = cwd w1" by blast
    have "\<exists>v'. create_items base rest (say ?line v1) = (None, v') \<and> agree F (fs w') (fs v')
        \<and> cwd v' = cwd w'"
      by (rule "8.IH"(2) [OF refl _ refl r "8.prems"(2)]) (use False m a1 c1 in simp_all)
    with mv False show ?thesis by (auto simp: Let_def)
  qed
qed auto

section \<open>The trace of a run\<close>

lemma dirs_after_append: "dirs_after D (xs @ ys) = dirs_after (dirs_after D xs) ys"
proof (induction xs arbitrary: D)
  case (Cons x xs)
  then show ?case by (cases x) simp_all
qed simp

lemma parent_first_append:
  "parent_first D (xs @ ys) = (parent_first D xs \<and> parent_first (dirs_after D xs) ys)"
proof (induction xs arbitrary: D)
  case (Cons x xs)
  then show ?case by (cases x) auto
qed simp

lemma fs_ok_parent: "fs_ok f \<Longrightarrow> f (butlast t) \<noteq> None \<or> f t = None"
  by (cases "t = []") (auto simp: fs_ok_def)

lemma walk_target:
  "fs_ok f \<Longrightarrow> walk f cur cs = Inr t \<Longrightarrow> f t = None \<Longrightarrow>
     f cur \<noteq> None \<or> (cur \<noteq> [] \<and> f (butlast cur) = Some Dir) \<Longrightarrow>
     t \<noteq> [] \<and> f (butlast t) = Some Dir"
proof (induction cs arbitrary: cur)
  case Nil
  then show ?case by auto
next
  case (Cons c cs)
  from Cons.prems(2) have d: "f cur = Some Dir"
    by (auto split: option.splits node.splits)
  let ?next = "if c = ''..'' then butlast cur else cur @ [c]"
  from Cons.prems(2) d have w: "walk f ?next cs = Inr t" by simp
  have "f ?next \<noteq> None \<or> (?next \<noteq> [] \<and> f (butlast ?next) = Some Dir)"
    using d fs_ok_parent [OF Cons.prems(1), of cur] by auto
  from Cons.IH [OF Cons.prems(1) w Cons.prems(3) this] show ?case .
qed

lemma resolve_target:
  assumes "world_ok w" "resolve w p = Inr t" "fs w t = None"
  shows "t \<noteq> [] \<and> fs w (butlast t) = Some Dir"
proof -
  let ?start = "if root p = [] then cwd w else []"
  from assms(2) have "walk (fs w) ?start (tail p) = Inr t"
    by (auto simp: resolve_def split: if_splits)
  moreover from assms(1) have "fs w ?start \<noteq> None"
    by (auto simp: world_ok_def fs_ok_def)
  ultimately show ?thesis using assms(1,3) walk_target [of "fs w" ?start "tail p" t]
    by (auto simp: world_ok_def)
qed

lemma isfile_iff: "isfile x = (\<exists>s. x = Some (File s))"
  by (auto simp: isfile_def split: option.splits node.splits)

lemma fs_ok_new:
  assumes "fs_ok f" "f t = None" "t \<noteq> []" "f (butlast t) = Some Dir"
  shows "fs_ok (f(t \<mapsto> n))"
  unfolding fs_ok_def
proof (intro conjI allI impI)
  show "(f(t \<mapsto> n)) [] = Some Dir" using assms by (auto simp: fs_ok_def)
next
  fix u assume u: "u \<noteq> []" "(f(t \<mapsto> n)) u \<noteq> None"
  show "(f(t \<mapsto> n)) (butlast u) = Some Dir"
  proof (cases "u = t")
    case True
    with assms show ?thesis by auto
  next
    case False
    with u assms(1) have "f (butlast u) = Some Dir" by (auto simp: fs_ok_def)
    with assms(2) show ?thesis by auto
  qed
qed

lemma fs_ok_rewrite:
  assumes "fs_ok f" "isfile (f t)"
  shows "fs_ok (f(t \<mapsto> File s))"
  unfolding fs_ok_def
proof (intro conjI allI impI)
  show "(f(t \<mapsto> File s)) [] = Some Dir" using assms by (auto simp: fs_ok_def)
next
  fix u assume u: "u \<noteq> []" "(f(t \<mapsto> File s)) u \<noteq> None"
  with assms(2) have "f u \<noteq> None" by (cases "u = t") (auto simp: isfile_iff)
  with u assms(1) have "f (butlast u) = Some Dir" by (auto simp: fs_ok_def)
  with assms(2) show "(f(t \<mapsto> File s)) (butlast u) = Some Dir"
    by (auto simp: isfile_iff)
qed

lemma traced_start: "world_ok w \<Longrightarrow> traced w w"
  by (simp add: traced_def)

lemma traced_step:
  assumes "traced w0 w" and ok: "world_ok w'"
    and tr: "trace w' = trace w @ evs"
    and pf: "parent_first (isdir (fs w)) evs"
    and da: "isdir (fs w') = dirs_after (isdir (fs w)) evs"
  shows "traced w0 w'"
proof -
  from assms(1) obtain es where es: "trace w = trace w0 @ es"
    "parent_first (isdir (fs w0)) es" "isdir (fs w) = dirs_after (isdir (fs w0)) es"
    by (auto simp: traced_def)
  have "trace w' = trace w0 @ (es @ evs)" by (simp add: tr es)
  moreover have "parent_first (isdir (fs w0)) (es @ evs)"
    using es pf by (simp add: parent_first_append)
  moreover have "isdir (fs w') = dirs_after (isdir (fs w0)) (es @ evs)"
    using es da by (simp add: dirs_after_append)
  ultimately show ?thesis using ok unfolding traced_def by blast
qed

lemma isdir_upd_dir: "isdir (f(t \<mapsto> Dir)) = (\<lambda>u. u = t \<or> isdir f u)"
  by (auto simp: isdir_def fun_eq_iff)

lemma isdir_upd_file: "f t \<noteq> Some Dir \<Longrightarrow> isdir (f(t \<mapsto> File s)) = isdir f"
  by (auto simp: isdir_def fun_eq_iff)

lemma traced_os_mkdir:
  assumes "os_mkdir p w = (r, w')" "traced w0 w"
  shows "traced w0 w'"
proof (cases r)
  case (Some e)
  with assms show ?thesis by (auto dest: os_mkdir_Some)
next
  case None
  with assms(1) obtain t where t: "resolve w p = Inr t" "fs w t = None"
    and w': "w' = w\<lparr>fs := (fs w)(t \<mapsto> Dir), trace := trace w @ [Mkdir t]\<rparr>"
    by (auto dest: os_mkdir_None)
  from assms(2) have ok: "world_ok w" by (simp add: traced_def)
  from resolve_target [OF ok t] have par: "t \<noteq> []" "fs w (butlast t) = Some Dir" by simp_all
  have "world_ok w'"
    using ok t(2) par fs_ok_new [of "fs w" t Dir] by (auto simp: world_ok_def w')
  then show ?thesis
    by (rule traced_step [OF assms(2), where evs = "[Mkdir t]"])
       (use par in \<open>simp_all add: w' isdir_upd_dir, simp add: isdir_def\<close>)
qed

lemma traced_write_text:
  assumes "write_text p s w = (r, w')" "traced w0 w"
  shows "traced w0 w'"
proof (cases r)
  case (Some e)
  with assms show ?thesis by (auto dest: write_text_Some)
next
  case None
  with assms(1) obtain t where t: "resolve w p = Inr t" "fs w t \<noteq> Some Dir"
    and w': "fs w' = (fs w)(t \<mapsto> File s)" "cwd w' = cwd w"
      "trace w' = trace w @ (if fs w t = None then [Creat t, Write t s] else [Write t s])"
    by (auto dest!: write_text_None)
  from assms(2) have ok: "world_ok w" by (simp add: traced_def)
  show ?thesis
  proof (cases "fs w t = None")
    case True
    from resolve_target [OF ok t(1) True] have par: "t \<noteq> []" "fs w (butlast t) = Some Dir"
      by simp_all
    have "world_ok w'"
      using ok True par fs_ok_new [of "fs w" t "File s"] by (auto simp: world_ok_def w')
    then show ?thesis
      by (rule traced_step [OF assms(2), where evs = "[Creat t, Write t s]"])
         (use par True t in \<open>simp_all add: w' isdir_upd_file, simp add: isdir_def\<close>)
  next
    case False
    with t(2) have f: "isfile (fs w t)"
      by (cases "fs w t") (auto simp: isfile_def split: node.splits)
    have "world_ok w'"
      using ok f fs_ok_rewrite [of "fs w" t s] by (auto simp: world_ok_def w')
    then show ?thesis
      by (rule traced_step [OF assms(2), where evs = "[Write t s]"])
         (use False t in \<open>simp_all add: w' isdir_upd_file\<close>)
  qed
qed

lemma traced_touch:
  assumes "touch p w = (r, w')" "traced w0 w"
  shows "traced w0 w'"
proof (cases r)
  case (Some e)
  with assms show ?thesis by (auto dest: touch_Some)
next
  case None
  with assms(1) obtain t where t: "resolve w p = Inr t" and cw: "cwd w' = cwd w"
    and w': "if fs w t = None
      then fs w' = (fs w)(t \<mapsto> File []) \<and> trace w' = trace w @ [Creat t] else w' = w"
    by (auto dest!: touch_None split: if_splits)
  from assms(2) have ok: "world_ok w" by (simp add: traced_def)
  show ?thesis
  proof (cases "fs w t = None")
    case True
    from resolve_target [OF ok t True] have par: "t \<noteq> []" "fs w (butlast t) = Some Dir"
      by simp_all
    from w' True have w'': "fs w' = (fs w)(t \<mapsto> File [])" "trace w' = trace w @ [Creat t]"
      by simp_all
    have "world_ok w'"
      using ok True par fs_ok_new [of "fs w" t "File []"] by (auto simp: world_ok_def w'' cw)
    then show ?thesis
      by (rule traced_step [OF assms(2), where evs = "[Creat t]"])
         (use par True in \<open>simp_all add: w'' isdir_upd_file, simp add: isdir_def\<close>)
  next
    case False
    with w' assms(2) show ?thesis by simp
  qed
qed

lemma traced_say: "traced w0 w \<Longrightarrow> traced w0 (say l w)"
  by (simp add: traced_def world_ok_def)

lemma create_invariant:
  assumes mk: "\<And>p w r w'. os_mkdir p w = (r, w') \<Longrightarrow> P w \<Longrightarrow> P w'"
    and wr: "\<And>p s w r w'. write_text p s w = (r, w') \<Longrightarrow> P w \<Longrightarrow> P w'"
    and to: "\<And>p w r w'. touch p w = (r, w') \<Longrightarrow> P w \<Longrightarrow> P w'"
    and sy: "\<And>l w. P w \<Longrightarrow> P (say l w)"
  shows "create base c w = (r, w') \<Longrightarrow> P w \<Longrightarrow> P w'"
    and "create_items base kvs w = (r, w') \<Longrightarrow> P w \<Longrightarrow> P w'"
proof (induction base c w and base kvs w arbitrary: r w' and r w'
    rule: create_create_items.induct)
  case (3 base s w)
  then show ?case
    by (auto simp: Let_def split: prod.splits option.splits dest: to sy)
next
  case (8 base name subcontent rest w)
  let ?path = "joinpath base name"
  show ?case
  proof (cases "isinstance_dict subcontent \<or> subcontent = JNull")
    case True
    let ?line = "''Created directory: '' @ path_str ?path"
    obtain r1 w1 where m: "path_mkdir ?path w = (r1, w1)" by (cases "path_mkdir ?path w")
    have p1: "P w1" by (rule path_mkdir_invariant [of P, OF mk m "8.prems"(2)])
    show ?thesis
    proof (cases r1)
      case (Some e)
      with "8.prems"(1) True m p1 show ?thesis by (simp add: Let_def)
    next
      case None
      obtain r2 w2 where c: "create ?path subcontent (say ?line w1) = (r2, w2)"
        by (cases "create ?path subcontent (say ?line w1)")
      have p2: "P w2"
        by (rule "8.IH"(1) [OF refl True m [symmetric] None c]) (rule sy [OF p1])
      show ?thesis
      proof (cases r2)
        case (Some e)
        with "8.prems"(1) True m None c p2 show ?thesis by (simp add: Let_def)
      next
        case n2: None
        with "8.prems"(1) True m None c have r: "create_items base rest w2 = (r, w')"
          by (simp add: Let_def)
        show ?thesis
          by (rule "8.IH"(2) [OF refl _ n2 r p2]) (use True m None c in simp)
      qed
    qed
  next
    case False
    let ?line = "''Created file: '' @ path_str ?path"
    obtain r1 w1 where m: "write_text ?path (py_str subcontent) w = (r1, w1)"
      by (cases "write_text ?path (py_str subcontent) w")
    have p1: "P w1" by (rule wr [OF m "8.prems"(2)])
    show ?thesis
    proof (cases r1)
      case (Some e)
      with "8.prems"(1) False m p1 show ?thesis by (simp add: Let_def)
    next
      case None
      with "8.prems"(1) False m have r: "create_items base rest (say ?line w1) = (r, w')"
        by (simp add: Let_def)
      show ?thesis
        by (rule "8.IH"(2) [OF refl _ refl r sy [OF p1]]) (use False m None in simp)
    qed
  qed
qed auto

lemma example_world_ok: "world_ok example_world"
  by (auto simp: world_ok_def fs_ok_def example_world_def split: if_splits)

section \<open>The tree after a run over simple keys\<close>

lemma split_sep_simple: "CHR ''/'' \<notin> set n \<Longrightarrow> split_sep n = [n]"
  by (induction n) auto

lemma Path_simple: "simple_name n \<Longrightarrow> Path n = \<lparr>root = [], tail = [n]\<rparr>"
  by (cases n) (auto simp: simple_name_def Path_def splitroot_def split_sep_simple)

lemma joinpath_simple:
  "simple_name n \<Longrightarrow> joinpath p n = \<lparr>root = root p, tail = tail p @ [n]\<rparr>"
  by (cases n) (auto simp: joinpath_def Path_simple simple_name_def)

lemma walk_append:
  "walk f cur (xs @ ys) = (case walk f cur xs of Inl e \<Rightarrow> Inl e | Inr t \<Rightarrow> walk f t ys)"
  by (induction xs arbitrary: cur) (auto split: option.splits node.splits)

lemma resolve_child:
  assumes "resolve w p = Inr B" "fs w B = Some Dir" "simple_name n"
  shows "resolve w (joinpath p n) = Inr (B @ [n])"
  using assms
  by (auto simp: resolve_def joinpath_simple walk_append simple_name_def split: if_splits)

lemma key_paths_nonempty:
  "(p, x) \<in> set (key_paths v) \<Longrightarrow> p \<noteq> []"
  "(p, x) \<in> set (items_paths kvs) \<Longrightarrow> \<exists>k q. p = k # q \<and> k \<in> fst ` set kvs"
proof (induction v and kvs arbitrary: p x and p x rule: key_paths_items_paths.induct)
  case (8 k v kvs)
  from "8.prems" consider "p = [k]" | q where "p = k # q" | "(p, x) \<in> set (items_paths kvs)"
    by auto
  then show ?case
  proof cases
    case 3
    from "8.IH"(2) [OF this] show ?thesis by auto
  qed auto
qed auto

lemma lay_frame:
  "lay B v f t \<noteq> f t \<Longrightarrow> \<exists>p x. (p, x) \<in> set (key_paths v) \<and> t = B @ p"
  "lay_items B kvs f t \<noteq> f t \<Longrightarrow> \<exists>p x. (p, x) \<in> set (items_paths kvs) \<and> t = B @ p"
proof (induction B v f and B kvs f arbitrary: t and t rule: lay_lay_items.induct)
  case (8 B k v kvs f)
  let ?f1 = "if isinstance_dict v \<or> v = JNull then lay (B @ [k]) v (f(B @ [k] \<mapsto> Dir))
        else f(B @ [k] \<mapsto> File (py_str v))"
  show ?case
  proof (cases "lay_items B kvs ?f1 t = ?f1 t")
    case False
    from "8.IH"(2) [OF False] show ?thesis by auto
  next
    case True
    with "8.prems" have ne: "?f1 t \<noteq> f t" by simp
    show ?thesis
    proof (cases "t = B @ [k]")
      case True
      then show ?thesis by auto
    next
      case nk: False
      with ne have d: "isinstance_dict v \<or> v = JNull"
        and "lay (B @ [k]) v (f(B @ [k] \<mapsto> Dir)) t \<noteq> (f(B @ [k] \<mapsto> Dir)) t"
        by (auto split: if_splits)
      from "8.IH"(1) [OF d this(2)] obtain p x where "(p, x) \<in> set (key_paths v)" "t = (B @ [k]) @ p"
        by blast
      then have "(k # p, x) \<in> set (items_paths ((k, v) # kvs))" "t = B @ k # p"
        by (auto simp: image_iff)
      then show ?thesis by blast
    qed
  qed
qed auto

lemma lay_items_other:
  assumes "k \<notin> fst ` set kvs"
  shows "lay_items B kvs f (B @ k # q) = f (B @ k # q)"
proof (rule ccontr)
  assume "lay_items B kvs f (B @ k # q) \<noteq> f (B @ k # q)"
  from lay_frame(2) [OF this] obtain p x where "(p, x) \<in> set (items_paths kvs)" "B @ k # q = B @ p"
    by blast
  with key_paths_nonempty(2) [of p x kvs] assms show False by auto
qed

lemma lay_base: "lay B v f B = f B"
proof (rule ccontr)
  assume "lay B v f B \<noteq> f B"
  from lay_frame(1) [OF this] obtain p x where "(p, x) \<in> set (key_paths v)" "B = B @ p" by blast
  with key_paths_nonempty(1) [of p x v] show False by simp
qed

lemma lay_at:
  "simple_keys v \<Longrightarrow> (p, x) \<in> set (key_paths v) \<Longrightarrow> lay B v f (B @ p) = Some (node_of x)"
  "simple_items kvs \<Longrightarrow> distinct (map fst kvs) \<Longrightarrow> (p, x) \<in> set (items_paths kvs) \<Longrightarrow>
     lay_items B kvs f (B @ p) = Some (node_of x)"
proof (induction B v f and B kvs f arbitrary: p x and p x rule: lay_lay_items.induct)
  case (8 B k v kvs f)
  let ?f1 = "if isinstance_dict v \<or> v = JNull then lay (B @ [k]) v (f(B @ [k] \<mapsto> Dir))
        else f(B @ [k] \<mapsto> File (py_str v))"
  from "8.prems" have k: "k \<notin> fst ` set kvs" and sv: "simple_keys v"
    and sr: "simple_items kvs" "distinct (map fst kvs)" by auto
  from "8.prems"(3) consider (here) "p = [k]" "x = v"
    | (deep) q where "p = k # q" "(q, x) \<in> set (key_paths v)"
    | (rest) "(p, x) \<in> set (items_paths kvs)" by auto
  then show ?case
  proof cases
    case here
    have "lay_items B kvs ?f1 (B @ k # []) = ?f1 (B @ k # [])" by (rule lay_items_other [OF k])
    also have "\<dots> = Some (node_of v)"
      using lay_base [of "B @ [k]" v "f(B @ [k] \<mapsto> Dir)"] by (simp add: node_of_def)
    finally show ?thesis using here by simp
  next
    case deep
    then have d: "isinstance_dict v \<or> v = JNull" by (cases v) (auto simp: isinstance_dict_def)
    have "lay_items B kvs ?f1 (B @ k # q) = ?f1 (B @ k # q)" by (rule lay_items_other [OF k])
    also have "\<dots> = lay (B @ [k]) v (f(B @ [k] \<mapsto> Dir)) ((B @ [k]) @ q)" using d by simp
    also have "\<dots> = Some (node_of x)" by (rule "8.IH"(1) [OF d sv deep(2)])
    finally show ?thesis using deep by simp
  next
    case rest
    show ?thesis using "8.IH"(2) [OF sr rest] by simp
  qed
qed auto

lemma key_paths_distinct:
  "simple_keys v \<Longrightarrow> distinct (map fst (key_paths v))"
  "simple_items kvs \<Longrightarrow> distinct (map fst kvs) \<Longrightarrow> distinct (map fst (items_paths kvs))"
proof (induction v and kvs rule: key_paths_items_paths.induct)
  case (8 k v kvs)
  from "8.prems" have k: "k \<notin> fst ` set kvs" by auto
  have a: "distinct (map fst (key_paths v))" using "8.IH"(1) "8.prems" by simp
  have b: "distinct (map fst (items_paths kvs))" using "8.IH"(2) "8.prems" by simp
  have m: "map fst (map (\<lambda>(p, x). (k # p, x)) (key_paths v)) = map ((#) k) (map fst (key_paths v))"
    by (simp add: case_prod_beta comp_def)
  have d1: "distinct (map fst (map (\<lambda>(p, x). (k # p, x)) (key_paths v)))"
    unfolding m using a by (simp add: distinct_map inj_on_def)
  have d2: "[k] \<notin> set (map fst (map (\<lambda>(p, x). (k # p, x)) (key_paths v)))"
    unfolding m by (auto dest: key_paths_nonempty(1))
  have d3: "hd p \<noteq> k \<and> p \<noteq> []" if "p \<in> set (map fst (items_paths kvs))" for p
  proof -
    from that obtain x where "(p, x) \<in> set (items_paths kvs)" by auto
    from key_paths_nonempty(2) [OF this] k show ?thesis by (force simp: image_iff)
  qed
  have d4: "[k] \<notin> set (map fst (items_paths kvs))" using d3 [of "[k]"] by auto
  have d5: "set (map fst (map (\<lambda>(p, x). (k # p, x)) (key_paths v))) \<inter> set (map fst (items_paths kvs)) = {}"
    unfolding m using d3 by fastforce
  show ?case using d1 d2 d4 d5 b by (simp del: map_map)
qed auto

lemma lay_sibling: "k' \<noteq> k \<Longrightarrow> lay (B @ [k]) v f (B @ k' # q) = f (B @ k' # q)"
proof (rule ccontr)
  assume "k' \<noteq> k" "lay (B @ [k]) v f (B @ k' # q) \<noteq> f (B @ k' # q)"
  from lay_frame(1) [OF this(2)] obtain p where "B @ k' # q = (B @ [k]) @ p" by blast
  with \<open>k' \<noteq> k\<close> show False by simp
qed

lemma fits_cong:
  "fits f B ps \<Longrightarrow> (\<And>p x. (p, x) \<in> set ps \<Longrightarrow> g (B @ p) = f (B @ p)) \<Longrightarrow> fits g B ps"
  by (auto simp: fits_def list_all_iff)

lemma path_mkdir_makes:
  assumes "resolve w p = Inr t" "fs w t = None \<or> fs w t = Some Dir"
  shows "\<exists>w'. path_mkdir p w = (None, w') \<and> fs w' = (fs w)(t \<mapsto> Dir) \<and> cwd w' = cwd w"
proof (cases "fs w t")
  case None
  from path_mkdir_fresh [OF assms(1) None] show ?thesis by simp
next
  case (Some n)
  with assms(2) have d: "fs w t = Some Dir" by simp
  then have "(fs w)(t \<mapsto> Dir) = fs w" by (simp add: fun_upd_idem)
  with path_mkdir_exists [OF assms(1) d] show ?thesis by simp
qed

lemma create_lays:
  "simple_keys c \<Longrightarrow> isinstance_dict c \<or> c = JNull \<Longrightarrow> resolve w bp = Inr B \<Longrightarrow>
     fs w B = Some Dir \<Longrightarrow> fits (fs w) B (key_paths c) \<Longrightarrow>
     \<exists>w'. create bp c w = (None, w') \<and> cwd w' = cwd w \<and> fs w' = lay B c (fs w)"
  "simple_items kvs \<Longrightarrow> distinct (map fst kvs) \<Longrightarrow> resolve w bp = Inr B \<Longrightarrow>
     fs w B = Some Dir \<Longrightarrow> fits (fs w) B (items_paths kvs) \<Longrightarrow>
     \<exists>w'. create_items bp kvs w = (None, w') \<and> cwd w' = cwd w \<and> fs w' = lay_items B kvs (fs w)"
proof (induction bp c w and bp kvs w arbitrary: B and B rule: create_create_items.induct)
  case (1 base kvs w)
  then show ?case by simp
next
  case (8 base name sub rest w)
  let ?path = "joinpath base name"
  let ?T = "B @ [name]"
  from "8.prems"(1,2) have sn: "simple_name name" and ss: "simple_keys sub"
    and sr: "simple_items rest" "distinct (map fst rest)" and nk: "name \<notin> fst ` set rest"
    by auto
  from "8.prems"(5) have fn: "fits_node (fs w ?T) sub"
    and fsub: "fits (fs w) ?T (key_paths sub)"
    and frest: "fits (fs w) B (items_paths rest)"
    by (auto simp: fits_def list_all_iff)
  have rT: "resolve w ?path = Inr ?T" by (rule resolve_child [OF "8.prems"(3,4) sn])
  have rest_same: "g (B @ p) = fs w (B @ p)"
    if "(p, x) \<in> set (items_paths rest)"
      and "\<And>k q. k \<noteq> name \<Longrightarrow> g (B @ k # q) = fs w (B @ k # q)" for g p x
  proof -
    from key_paths_nonempty(2) [OF that(1)] obtain k q where "p = k # q" "k \<in> fst ` set rest"
      by blast
    with nk that(2) [of k q] show ?thesis by auto
  qed
  show ?case
  proof (cases "isinstance_dict sub \<or> sub = JNull")
    case True
    let ?line = "''Created directory: '' @ path_str ?path"
    from fn True have "fs w ?T = None \<or> fs w ?T = Some Dir"
      by (auto simp: fits_node_def split: option.splits node.splits)
    from path_mkdir_makes [OF rT this] obtain w1 where m: "path_mkdir ?path w = (None, w1)"
      and f1: "fs w1 = (fs w)(?T \<mapsto> Dir)" and c1: "cwd w1 = cwd w" by blast
    have r1: "resolve (say ?line w1) ?path = Inr ?T"
      by (rule resolve_mono [OF rT]) (simp_all add: c1 f1)
    have fit1: "fits (fs (say ?line w1)) ?T (key_paths sub)"
      by (rule fits_cong [OF fsub]) (auto simp: f1 dest: key_paths_nonempty(1))
    have dT: "fs (say ?line w1) ?T = Some Dir" by (simp add: f1)
    from "8.IH"(1) [OF refl True m [symmetric] refl ss True r1 dT fit1]
    obtain w2 where c: "create ?path sub (say ?line w1) = (None, w2)"
      and c2': "cwd w2 = cwd (say ?line w1)"
      and f2': "fs w2 = lay ?T sub (fs (say ?line w1))"
      by blast
    from c2' c1 have c2: "cwd w2 = cwd w" by simp
    from f2' have f2: "fs w2 = lay ?T sub ((fs w)(?T \<mapsto> Dir))"
      by (simp only: say_simps f1)
    have g2: "le_fs (fs w) (fs w2)"
      using path_mkdir_grow [OF m] create_grow(1) [OF c] by (auto intro: le_fs_trans)
    have r2: "resolve w2 base = Inr B"
      by (rule resolve_mono [OF "8.prems"(3) c2]) (use g2 in \<open>simp add: le_fs_def\<close>)
    have d2: "fs w2 B = Some Dir" using g2 "8.prems"(4) by (simp add: le_fs_def)
    have fit2: "fits (fs w2) B (items_paths rest)"
    proof (rule fits_cong [OF frest], rule rest_same)
      fix k q :: string and qs assume "k \<noteq> name"
      then show "fs w2 (B @ k # qs) = fs w (B @ k # qs)"
        by (simp add: f2 lay_sibling)
    qed
    have "\<exists>w'. create_items base rest w2 = (None, w') \<and> cwd w' = cwd w2
        \<and> fs w' = lay_items B rest (fs w2)"
      by (rule "8.IH"(2) [OF refl _ refl sr r2 d2 fit2]) (use True m c in simp)
    with True m c c2 f2 show ?thesis by (auto simp: Let_def)
  next
    case False
    let ?line = "''Created file: '' @ path_str ?path"
    from fn False have "fs w ?T \<noteq> Some Dir"
      by (auto simp: fits_node_def split: option.splits node.splits)
    from write_text_ok [OF rT this, of "py_str sub"] obtain w1 where
      m: "write_text ?path (py_str sub) w = (None, w1)"
      and f1: "fs w1 = (fs w)(?T \<mapsto> File (py_str sub))" and c1: "cwd w1 = cwd w" by blast
    have g1: "le_fs (fs w) (fs w1)" using write_text_grow [OF m] by simp
    have r1: "resolve (say ?line w1) base = Inr B"
      by (rule resolve_mono [OF "8.prems"(3)]) (use g1 c1 in \<open>simp_all add: le_fs_def\<close>)
    have d1: "fs (say ?line w1) B = Some Dir" using g1 "8.prems"(4) by (simp add: le_fs_def)
    have fit1: "fits (fs (say ?line w1)) B (items_paths rest)"
    proof (rule fits_cong [OF frest], rule rest_same)
      fix k q :: string and qs assume "k \<noteq> name"
      then show "fs (say ?line w1) (B @ k # qs) = fs w (B @ k # qs)"
        by (simp add: f1)
    qed
    have "\<exists>w'. create_items base rest (say ?line w1) = (None, w') \<and> cwd w' = cwd (say ?line w1)
        \<and> fs w' = lay_items B rest (fs (say ?line w1))"
      by (rule "8.IH"(2) [OF refl _ refl sr r1 d1 fit1]) (use False m in simp)
    with False m c1 f1 show ?thesis by (auto simp: Let_def)
  qed
qed (auto simp: isinstance_dict_def)

section \<open>One pair of a mapping\<close>

lemma create_items_append:
  "create_items base (xs @ ys) w =
     (case create_items base xs w of
        (None, w1) \<Rightarrow> create_items base ys w1
      | (Some e, w1) \<Rightarrow> (Some e, w1))"
proof (induction xs arbitrary: w)
  case Nil
  then show ?case by simp
next
  case (Cons kv xs)
  obtain k v where kv: "kv = (k, v)" by (cases kv)
  show ?case
    unfolding kv by (simp add: Let_def Cons.IH split: prod.splits option.splits)
qed

lemma leaf_step:
  assumes "\<not> (isinstance_dict child \<or> child = JNull)"
    and "resolve w1 (joinpath base name) = Inr t" and "fs w1 t \<noteq> Some Dir"
  shows "\<exists>w2. create_items base [(name, child)] w1 = (None, w2)
     \<and> fs w2 = (fs w1)(t \<mapsto> File (py_str child)) \<and> cwd w2 = cwd w1"
proof -
  from write_text_ok [OF assms(2,3), of "py_str child"] obtain w' where
    "write_text (joinpath base name) (py_str child) w1 = (None, w')"
    "fs w' = (fs w1)(t \<mapsto> File (py_str child))" "cwd w' = cwd w1" by blast
  with assms(1) show ?thesis by (simp add: Let_def)
qed

lemma leaf_as_str:
  assumes "\<not> (isinstance_dict child \<or> child = JNull)"
  shows "create_items base ((name, child) # post) w
     = create_items base ((name, JStr (py_str child)) # post) w"
  using assms by (simp add: Let_def isinstance_dict_def)

lemma fs_ok_below:
  assumes "fs_ok f" "f t = None"
  shows "f (t @ c # u) = None"
proof (induction u rule: rev_induct)
  case Nil
  from assms(1) have "f (t @ [c]) \<noteq> None \<longrightarrow> f (butlast (t @ [c])) = Some Dir"
    unfolding fs_ok_def by blast
  with assms(2) show ?case by (simp add: butlast_append)
next
  case (snoc x u)
  from assms(1) have "f (t @ c # u @ [x]) \<noteq> None \<longrightarrow> f (butlast (t @ c # u @ [x])) = Some Dir"
    unfolding fs_ok_def by blast
  with snoc show ?case by (simp add: butlast_append)
qed

lemma read_after_write:
  assumes "write_text p text w = (None, w1)"
  shows "\<exists>t. resolve w1 p = Inr t \<and> fs w1 t = Some (File text)"
proof -
  from write_text_None [OF assms] obtain t where t: "resolve w p = Inr t"
    and f: "fs w1 = (fs w)(t \<mapsto> File text)" and c: "cwd w1 = cwd w" by blast
  from write_text_grow [OF assms] have "le_fs (fs w) (fs w1)" by simp
  then have "resolve w1 p = Inr t"
    by (intro resolve_mono [OF t c]) (simp add: le_fs_def)
  with f show ?thesis by simp
qed

lemma walk_error:
  "walk f cur cs = Inl e \<Longrightarrow> e = FileNotFoundError \<or> e = NotADirectoryError"
  by (induction cs arbitrary: cur) (auto split: option.splits node.splits)

lemma resolve_error:
  "resolve w p = Inl e \<Longrightarrow> e = ValueError \<or> e = FileNotFoundError \<or> e = NotADirectoryError"
  by (auto simp: resolve_def split: if_splits dest: walk_error)

lemma leaf_no_type_error:
  assumes "\<not> (isinstance_dict child \<or> child = JNull)"
  shows "fst (create_items base [(name, child)] w1) \<noteq> Some TypeError"
proof -
  obtain r w' where wr: "write_text (joinpath base name) (py_str child) w1 = (r, w')"
    by (cases "write_text (joinpath base name) (py_str child) w1")
  have "r \<noteq> Some TypeError"
  proof
    assume "r = Some TypeError"
    with write_text_Some [of "joinpath base name" "py_str child" w1 TypeError w'] wr
    show False by (auto dest: resolve_error)
  qed
  with assms wr show ?thesis by (cases r) (simp_all add: Let_def)
qed

section \<open>Decoding an encoded value\<close>

lemma prepend_simps [simp]:
  "prepend c None = None"
  "prepend c (Some (Inl e)) = Some (Inl e)"
  "prepend c (Some (Inr (s, rest))) = Some (Inr (c # s, rest))"
  by (simp_all add: prepend_def)

lemma hex_val_hex_char: "d < 16 \<Longrightarrow> hex_val (hex_char d) = Some d"
proof -
  assume "d < 16"
  then consider "d < 10" | "10 \<le> d \<and> d < 16" by linarith
  then show ?thesis
  proof cases
    case 1
    then have "of_char (char_of (48 + d)) = 48 + d"
      by (simp add: of_char_of [where ?'a = nat])
    with 1 show ?thesis by (simp add: hex_val_def hex_char_def Let_def)
  next
    case 2
    then have "of_char (char_of (87 + d)) = 87 + d"
      by (simp add: of_char_of [where ?'a = nat])
    with 2 show ?thesis by (simp add: hex_val_def hex_char_def Let_def)
  qed
qed

lemma of_char_less_256: "(of_char (c :: char) :: nat) < 256"
  by (cases c) (simp add: of_char_def)

lemma hex_char_0: "hex_char 0 = CHR ''0''"
  by code_simp

lemma hex4_value:
  assumes "n < 256"
  shows "hex4 n = [CHR ''0'', CHR ''0'', hex_char (n div 16), hex_char (n mod 16)]"
  using assms by (simp add: hex4_def hex_char_0)

lemma scanstring_unicode_escape:
  "scanstring (CHR 0x5C # CHR ''u'' # hex4 (of_char c) @ t) = prepend c (scanstring t)"
proof -
  let ?n = "of_char c :: nat"
  have n: "?n < 256" by (rule of_char_less_256)
  then have d: "?n div 16 < 16" "?n mod 16 < 16" by (simp_all add: less_mult_imp_div_less)
  have z: "hex_val (CHR ''0'') = Some 0" by (simp add: hex_val_def)
  have v: "16 * (?n div 16) + ?n mod 16 = ?n" by simp
  show ?thesis
    using n by (simp add: hex4_value [OF n] z hex_val_hex_char [OF d(1)] hex_val_hex_char [OF d(2)] v)
qed

lemma scanstring_escape: "scanstring (escape_char c @ t) = prepend c (scanstring t)"
proof -
  consider (bs) "c = CHR 0x5C" | (qu) "c = CHR 0x22" | (b) "c = CHR 0x08" | (f) "c = CHR 0x0C"
    | (n) "c = CHR 0x0A" | (r) "c = CHR 0x0D" | (t) "c = CHR 0x09"
    | (uni) "c \<noteq> CHR 0x5C" "c \<noteq> CHR 0x22" "c \<noteq> CHR 0x08" "c \<noteq> CHR 0x0C" "c \<noteq> CHR 0x0A"
        "c \<noteq> CHR 0x0D" "c \<noteq> CHR 0x09" "(of_char c :: nat) < 32 \<or> 126 < (of_char c :: nat)"
    | (lit) "c \<noteq> CHR 0x5C" "c \<noteq> CHR 0x22" "\<not> ((of_char c :: nat) < 32 \<or> 126 < (of_char c :: nat))"
    by blast
  then show ?thesis
  proof cases
    case uni
    then have "escape_char c = CHR 0x5C # CHR ''u'' # hex4 (of_char c)"
      by (simp add: escape_char_def)
    then show ?thesis by (simp add: scanstring_unicode_escape del: scanstring.simps)
  next
    case lit
    then have "escape_char c = [c]" by (auto simp: escape_char_def)
    with lit show ?thesis by simp
  qed (simp_all add: escape_char_def backslash_def)
qed

lemma scanstring_body:
  "scanstring (concat (map escape_char s) @ CHR 0x22 # rest) = Some (Inr (s, rest))"
proof (induction s)
  case Nil
  show ?case by simp
next
  case (Cons c s)
  then show ?case by (simp add: scanstring_escape del: scanstring.simps)
qed

lemma of_char_digit_char: "d < 10 \<Longrightarrow> (of_char (digit_char d) :: nat) = 48 + d"
  by (simp add: digit_char_def of_char_of [where ?'a = nat])

lemma is_digit_digit_char: "d < 10 \<Longrightarrow> is_digit (digit_char d)"
  by (simp add: is_digit_def of_char_digit_char)

lemma digits_unfold:
  "digits n = (if n < 10 then [digit_char n] else digits (n div 10) @ [digit_char (n mod 10)])"
  by (rule digits.simps)

declare digits.simps [simp del]

lemma digits_all: "list_all is_digit (digits n)"
proof (induction n rule: digits.induct)
  case (1 n)
  then show ?case
    by (subst digits_unfold) (auto simp: is_digit_digit_char)
qed

lemma digits_nonempty: "digits n \<noteq> []"
  by (subst digits_unfold) simp

lemma int_of_digits_snoc: "int_of_digits (ds @ [d]) = 10 * int_of_digits ds + (of_char d - 48)"
  by (simp add: int_of_digits_def)

lemma int_of_digits_digits: "int_of_digits (digits n) = n"
proof (induction n rule: digits.induct)
  case (1 n)
  show ?case
  proof (cases "n < 10")
    case True
    then show ?thesis
      by (subst digits_unfold) (simp add: int_of_digits_def of_char_digit_char)
  next
    case False
    with 1 have "int_of_digits (digits (n div 10)) = n div 10" by simp
    with False show ?thesis
      by (subst digits_unfold) (simp add: int_of_digits_snoc of_char_digit_char)
  qed
qed

lemma digit_char_zero: "d < 10 \<Longrightarrow> (digit_char d = CHR ''0'') = (d = 0)"
proof -
  assume d: "d < 10"
  have z: "(of_char (CHR ''0'') :: nat) = 48" by simp
  show ?thesis
  proof
    assume "digit_char d = CHR ''0''"
    then have "(of_char (digit_char d) :: nat) = 48" using z by simp
    with d show "d = 0" by (simp add: of_char_digit_char)
  next
    assume "d = 0"
    then show "digit_char d = CHR ''0''" by (simp add: digit_char_def) code_simp
  qed
qed

lemma digits_hd: "0 < n \<Longrightarrow> hd (digits n) \<noteq> CHR ''0''"
proof (induction n rule: digits.induct)
  case (1 n)
  show ?case
  proof (cases "n < 10")
    case True
    with "1.prems" show ?thesis
      by (subst digits_unfold) (simp add: digit_char_zero)
  next
    case False
    then have "0 < n div 10" by simp
    with 1 False have "hd (digits (n div 10)) \<noteq> CHR ''0''" by simp
    with False show ?thesis
      by (subst digits_unfold) (simp add: digits_nonempty)
  qed
qed

lemma digits_zero: "digits 0 = ''0''"
  by (subst digits_unfold) (simp add: digit_char_zero [of 0, simplified])

lemma takeWhile_digits:
  assumes "list_all is_digit ds" "rest = [] \<or> \<not> is_digit (hd rest)"
  shows "takeWhile is_digit (ds @ rest) = ds" "dropWhile is_digit (ds @ rest) = rest"
proof -
  from assms(2) have r: "takeWhile is_digit rest = []" "dropWhile is_digit rest = rest"
    by (cases rest; simp)+
  from assms(1) show "takeWhile is_digit (ds @ rest) = ds"
    by (induction ds) (simp_all add: r)
  from assms(1) show "dropWhile is_digit (ds @ rest) = rest"
    by (induction ds) (simp_all add: r)
qed

lemma match_integer_digits:
  assumes "rest = [] \<or> \<not> is_digit (hd rest)"
  shows "match_integer (digits n @ rest) = Some (digits n, rest)"
proof (cases "n = 0")
  case True
  then show ?thesis by (simp add: digits_zero match_integer_def)
next
  case False
  obtain d ds where dd: "digits n = d # ds" using digits_nonempty [of n] by (cases "digits n") auto
  from digits_all [of n] dd have a: "is_digit d" "list_all is_digit ds" by simp_all
  from digits_hd [of n] False dd have "d \<noteq> CHR ''0''" by simp
  with a takeWhile_digits [OF a(2) assms] show ?thesis
    by (simp add: dd match_integer_def)
qed

lemma delim_not_digit: "delim rest \<Longrightarrow> rest = [] \<or> \<not> is_digit (hd rest)"
  by (cases rest) (auto simp: delim_def is_digit_def)

lemma delim_not_frac: "delim rest \<Longrightarrow> \<not> frac_or_exp rest"
  by (auto simp: delim_def frac_or_exp_def split: list.splits)

lemma digits_not_minus: "take 1 (digits n @ rest) \<noteq> ''-''"
proof -
  obtain d ds where dd: "digits n = d # ds" using digits_nonempty [of n] by (cases "digits n") auto
  from digits_all [of n] dd have "is_digit d" by simp
  then have "d \<noteq> CHR ''-''" by (auto simp: is_digit_def)
  then show ?thesis by (simp add: dd)
qed

lemma scan_number_int:
  assumes "delim rest"
  shows "scan_number (str_int i @ rest) = Some (Inr (JInt i, rest))"
proof (cases "i < 0")
  case True
  then have s: "str_int i @ rest = CHR ''-'' # digits (nat (- i)) @ rest"
    by (simp add: str_int_def)
  show ?thesis unfolding s
    using True assms
    by (simp add: scan_number_def match_integer_digits delim_not_digit delim_not_frac
        int_of_digits_digits)
next
  case False
  then have s: "str_int i @ rest = digits (nat i) @ rest" by (simp add: str_int_def)
  show ?thesis unfolding s
    using False assms digits_not_minus [of "nat i" rest]
    by (simp add: scan_number_def match_integer_digits delim_not_digit delim_not_frac
        int_of_digits_digits)
qed

lemma skip_ws_Nil [simp]: "skip_ws [] = []"
  by (simp add: skip_ws_def)

lemma skip_ws_Cons: "\<not> is_ws c \<Longrightarrow> skip_ws (c # s) = c # s"
  by (simp add: skip_ws_def)

lemma dropWhile_replicate_ws: "dropWhile is_ws (replicate k CHR '' '' @ s) = dropWhile is_ws s"
  by (induction k) (simp_all add: is_ws_def)

lemma skip_ws_newline_indent [simp]: "skip_ws (newline_indent l @ s) = skip_ws s"
  by (simp add: skip_ws_def newline_indent_def dropWhile_replicate_ws) (simp add: is_ws_def)

lemma skip_ws_space [simp]: "skip_ws (CHR '' '' # s) = skip_ws s"
  by (simp add: skip_ws_def is_ws_def)

lemma not_ws [simp]:
  "\<not> is_ws (CHR 0x22)" "\<not> is_ws (CHR ''['')" "\<not> is_ws (CHR '']'')" "\<not> is_ws (CHR ''{'')"
  "\<not> is_ws (CHR ''}'')" "\<not> is_ws (CHR '','')" "\<not> is_ws (CHR '':'')"
  by (simp_all add: is_ws_def)

lemma delim_simps [simp]:
  "delim []" "delim (CHR '','' # s)" "delim (newline_indent l @ s)"
  by (simp_all add: delim_def newline_indent_def)

lemma skip_ws_value: "value_start s \<Longrightarrow> skip_ws (s @ r) = s @ r"
  by (cases s) (simp_all add: value_start_def skip_ws_Cons)

lemma str_int_start: "\<exists>c cs. str_int i = c # cs \<and> (c = CHR ''-'' \<or> is_digit c)"
proof (cases "i < 0")
  case True
  then show ?thesis by (simp add: str_int_def)
next
  case False
  obtain d ds where dd: "digits (nat i) = d # ds"
    using digits_nonempty [of "nat i"] by (cases "digits (nat i)") auto
  with digits_all [of "nat i"] have "is_digit d" by simp
  with False dd show ?thesis by (simp add: str_int_def)
qed

lemma value_start_iterencode: "value_start (iterencode l v)"
proof (cases v)
  case (JInt i)
  from str_int_start [of i] obtain c cs where "str_int i = c # cs" "c = CHR ''-'' \<or> is_digit c"
    by blast
  then show ?thesis using JInt by (auto simp: value_start_def is_ws_def is_digit_def)
qed (auto simp: value_start_def encode_basestring_ascii_def is_ws_def)

lemma value_start_list: "xs \<noteq> [] \<Longrightarrow> value_start (iterencode_list l xs)"
  using value_start_iterencode [of l "hd xs"]
  by (cases xs) (auto simp: value_start_def split: list.splits)

lemma scan_once_str:
  "scan_once (Suc n) (encode_basestring_ascii s @ rest) = Some (Inr (JStr s, rest))"
  by (simp add: encode_basestring_ascii_def scanstring_body)

lemma scan_once_int:
  assumes "delim rest"
  shows "scan_once (Suc n) (str_int i @ rest) = Some (Inr (JInt i, rest))"
proof -
  from str_int_start [of i] obtain c cs where s: "str_int i = c # cs"
    and c: "c = CHR ''-'' \<or> is_digit c" by blast
  from c have "c \<noteq> CHR 0x22" "c \<noteq> CHR ''{''" "c \<noteq> CHR ''[''" "c \<noteq> CHR ''n''"
    "c \<noteq> CHR ''t''" "c \<noteq> CHR ''f''"
    by (auto simp: is_digit_def)
  then have "scan_once (Suc n) (c # cs @ rest) = scan_number (c # cs @ rest)"
    by (simp add: starts_with_def)
  with scan_number_int [OF assms, of i] s show ?thesis by simp
qed

lemma scan_once_const:
  "scan_once (Suc n) (''null'' @ rest) = Some (Inr (JNull, rest))"
  "scan_once (Suc n) (''true'' @ rest) = Some (Inr (JBool True, rest))"
  "scan_once (Suc n) (''false'' @ rest) = Some (Inr (JBool False, rest))"
  by (simp_all add: starts_with_def)

lemma scan_once_empty:
  "scan_once (Suc n) (''[]'' @ rest) = Some (Inr (JList [], rest))"
  "scan_once (Suc n) (''{}'' @ rest) = Some (Inr (JDict [], rest))"
  by (simp_all add: skip_ws_Cons)

lemma update_fresh: "k \<notin> fst ` set acc \<Longrightarrow> AList.update k v acc = acc @ [(k, v)]"
  by (induction acc) auto

lemma decodesD:
  "decodes v \<Longrightarrow> wf_json v \<Longrightarrow> cost v \<le> n \<Longrightarrow> delim rest \<Longrightarrow>
     scan_once n (iterencode l v @ rest) = Some (Inr (v, rest))"
  by (simp add: decodes_def)

lemma wf_elems_iff: "wf_elems xs = (\<forall>x \<in> set xs. wf_json x)"
  by (induction xs) auto

lemma wf_items_iff: "wf_items kvs = (\<forall>kv \<in> set kvs. wf_json (snd kv))"
  by (induction kvs) auto

lemma parse_array_list:
  assumes "\<And>x. x \<in> set xs \<Longrightarrow> decodes x" and "\<And>x. x \<in> set xs \<Longrightarrow> wf_json x"
  shows "xs \<noteq> [] \<Longrightarrow> cost_list xs \<le> n \<Longrightarrow>
     parse_array n acc (iterencode_list l xs @ newline_indent l' @ CHR '']'' # rest)
       = Some (Inr (JList (acc @ xs), rest))"
  using assms
proof (induction xs arbitrary: n acc)
  case Nil
  then show ?case by simp
next
  case (Cons x xs)
  from Cons.prems(2) obtain m where n: "n = Suc m" and cx: "cost x \<le> m" and cxs: "cost_list xs \<le> m"
    by (cases n) auto
  have dx: "decodes x" and wx: "wf_json x" using Cons.prems(3,4) by simp_all
  show ?case
  proof (cases "xs = []")
    case True
    let ?tail = "newline_indent l' @ CHR '']'' # rest"
    have "scan_once m (iterencode l x @ ?tail) = Some (Inr (x, ?tail))"
      by (rule decodesD [OF dx wx cx]) simp
    then show ?thesis unfolding n using True by (simp add: skip_ws_Cons)
  next
    case False
    let ?more = "iterencode_list l xs @ newline_indent l' @ CHR '']'' # rest"
    let ?tail = "CHR '','' # newline_indent l @ ?more"
    have s: "scan_once m (iterencode l x @ ?tail) = Some (Inr (x, ?tail))"
      by (rule decodesD [OF dx wx cx]) simp
    have sk: "skip_ws ?more = ?more"
      using skip_ws_value [OF value_start_list [OF False]] by simp
    have ih: "parse_array m (acc @ [x]) ?more = Some (Inr (JList ((acc @ [x]) @ xs), rest))"
      by (rule Cons.IH [OF False cxs]) (use Cons.prems(3,4) in auto)
    have "parse_array (Suc m) acc (iterencode l x @ ?tail) = parse_array m (acc @ [x]) ?more"
      by (simp add: s skip_ws_Cons sk)
    with ih show ?thesis unfolding n using False by simp
  qed
qed

lemma iterencode_dict_Cons:
  "iterencode_dict l (kv # kvs) =
     CHR 0x22 # concat (map escape_char (fst kv)) @ CHR 0x22 # CHR '':'' # CHR '' '' #
       iterencode l (snd kv)
       @ (if kvs = [] then [] else CHR '','' # newline_indent l @ iterencode_dict l kvs)"
  by (simp add: encode_basestring_ascii_def)

lemma iterencode_dict_start:
  "kvs \<noteq> [] \<Longrightarrow> iterencode_dict l kvs = CHR 0x22 # tl (iterencode_dict l kvs)"
proof (cases kvs)
  case (Cons kv kvs')
  show ?thesis unfolding Cons iterencode_dict_Cons by simp
qed simp

lemma parse_object_items:
  assumes "\<And>kv. kv \<in> set kvs \<Longrightarrow> decodes (snd kv)" and "\<And>kv. kv \<in> set kvs \<Longrightarrow> wf_json (snd kv)"
  shows "kvs \<noteq> [] \<Longrightarrow> cost_items kvs \<le> n \<Longrightarrow> distinct (map fst (acc @ kvs)) \<Longrightarrow>
     parse_object n acc (tl (iterencode_dict l kvs) @ newline_indent l' @ CHR ''}'' # rest)
       = Some (Inr (JDict (acc @ kvs), rest))"
  using assms
proof (induction kvs arbitrary: n acc)
  case Nil
  then show ?case by simp
next
  case (Cons kv kvs)
  obtain k v where kv: "kv = (k, v)" by (cases kv)
  from Cons.prems(2) obtain m where n: "n = Suc m" and cx: "cost v \<le> m"
    and cxs: "cost_items kvs \<le> m"
    by (cases n) (auto simp: kv)
  have dx: "decodes v" and wx: "wf_json v"
    using Cons.prems(4) [of kv] Cons.prems(5) [of kv] by (simp_all add: kv)
  from Cons.prems(3) have fresh: "k \<notin> fst ` set acc" by (auto simp: kv)
  have upd: "AList.update k v acc = acc @ [(k, v)]" by (rule update_fresh [OF fresh])
  let ?end = "newline_indent l' @ CHR ''}'' # rest"
  show ?case
  proof (cases "kvs = []")
    case True
    have s: "scan_once m (iterencode l v @ ?end) = Some (Inr (v, ?end))"
      by (rule decodesD [OF dx wx cx]) simp
    have p: "parse_object (Suc m) acc
        (concat (map escape_char k) @ CHR 0x22 # CHR '':'' # CHR '' '' # iterencode l v @ ?end)
      = Some (Inr (JDict (acc @ [(k, v)]), rest))"
      by (simp add: scanstring_body skip_ws_Cons skip_ws_value [OF value_start_iterencode] s upd)
    have eq: "tl (iterencode_dict l (kv # kvs)) @ ?end
      = concat (map escape_char k) @ CHR 0x22 # CHR '':'' # CHR '' '' # iterencode l v @ ?end"
      unfolding iterencode_dict_Cons using True by (simp add: kv)
    show ?thesis unfolding n eq using p True by (simp only: kv append_Nil2)
  next
    case False
    let ?more = "tl (iterencode_dict l kvs) @ ?end"
    let ?tail = "CHR '','' # newline_indent l @ CHR 0x22 # ?more"
    from False have st: "iterencode_dict l kvs = CHR 0x22 # tl (iterencode_dict l kvs)"
      by (rule iterencode_dict_start)
    have s: "scan_once m (iterencode l v @ ?tail) = Some (Inr (v, ?tail))"
      by (rule decodesD [OF dx wx cx]) simp
    have ih: "parse_object m (acc @ [(k, v)]) ?more
        = Some (Inr (JDict ((acc @ [(k, v)]) @ kvs), rest))"
      by (rule Cons.IH [OF False cxs]) (use Cons.prems(3,4,5) in \<open>auto simp: kv\<close>)
    have p: "parse_object (Suc m) acc
        (concat (map escape_char k) @ CHR 0x22 # CHR '':'' # CHR '' '' # iterencode l v @ ?tail)
      = parse_object m (acc @ [(k, v)]) ?more"
      by (simp add: scanstring_body skip_ws_Cons skip_ws_value [OF value_start_iterencode] s upd)
    have "iterencode_dict l kvs @ ?end = CHR 0x22 # ?more"
      by (subst st) simp
    then have eq: "tl (iterencode_dict l (kv # kvs)) @ ?end
      = concat (map escape_char k) @ CHR 0x22 # CHR '':'' # CHR '' '' # iterencode l v @ ?tail"
      unfolding iterencode_dict_Cons using False by (simp add: kv)
    show ?thesis unfolding n eq using p ih by (simp only: kv append_assoc append_Cons append_Nil)
  qed
qed

lemma decodes_all: "decodes v"
proof (induction v rule: json.induct)
  case JNull
  show ?case unfolding decodes_def
  proof (intro impI allI)
    fix n l rest assume "cost JNull \<le> n"
    then obtain m where "n = Suc m" by (cases n) auto
    then show "scan_once n (iterencode l JNull @ rest) = Some (Inr (JNull, rest))"
      using scan_once_const(1) [of m rest] by simp
  qed
next
  case (JBool b)
  show ?case unfolding decodes_def
  proof (intro impI allI)
    fix n l rest assume "cost (JBool b) \<le> n"
    then obtain m where "n = Suc m" by (cases n) auto
    then show "scan_once n (iterencode l (JBool b) @ rest) = Some (Inr (JBool b, rest))"
      using scan_once_const(2,3) [of m rest] by (cases b) simp_all
  qed
next
  case (JInt i)
  show ?case unfolding decodes_def
  proof (intro impI allI)
    fix n l rest assume "cost (JInt i) \<le> n" "delim rest"
    then obtain m where "n = Suc m" by (cases n) auto
    then show "scan_once n (iterencode l (JInt i) @ rest) = Some (Inr (JInt i, rest))"
      using scan_once_int [OF \<open>delim rest\<close>, of m i] by simp
  qed
next
  case (JStr s)
  show ?case unfolding decodes_def
  proof (intro impI allI)
    fix n l rest assume "cost (JStr s) \<le> n"
    then obtain m where "n = Suc m" by (cases n) auto
    then show "scan_once n (iterencode l (JStr s) @ rest) = Some (Inr (JStr s, rest))"
      using scan_once_str [of m s rest] by simp
  qed
next
  case (JList xs)
  show ?case unfolding decodes_def
  proof (intro impI allI)
    fix n l rest assume wf: "wf_json (JList xs)" and c: "cost (JList xs) \<le> n"
    then obtain m where n: "n = Suc m" and cm: "cost_list xs \<le> m" by (cases n) auto
    show "scan_once n (iterencode l (JList xs) @ rest) = Some (Inr (JList xs, rest))"
    proof (cases "xs = []")
      case True
      then show ?thesis unfolding n using scan_once_empty(1) [of m rest] by simp
    next
      case False
      let ?body = "iterencode_list (Suc l) xs @ newline_indent l @ CHR '']'' # rest"
      have pa: "parse_array m [] ?body = Some (Inr (JList ([] @ xs), rest))"
        by (rule parse_array_list [OF _ _ False cm]) (use JList wf in \<open>auto simp: wf_elems_iff\<close>)
      from value_start_list [OF False, of "Suc l"] obtain d ds where
        b: "iterencode_list (Suc l) xs = d # ds" and d: "\<not> is_ws d" and nb: "d \<noteq> CHR '']''"
        by (cases "iterencode_list (Suc l) xs") (auto simp: value_start_def)
      have "scan_once (Suc m) (CHR ''['' # newline_indent (Suc l) @ ?body) = parse_array m [] ?body"
        using d nb by (simp add: b skip_ws_Cons)
      with pa show ?thesis unfolding n using False by simp
    qed
  qed
next
  case (JDict kvs)
  show ?case unfolding decodes_def
  proof (intro impI allI)
    fix n l rest assume wf: "wf_json (JDict kvs)" and c: "cost (JDict kvs) \<le> n"
    then obtain m where n: "n = Suc m" and cm: "cost_items kvs \<le> m" by (cases n) auto
    show "scan_once n (iterencode l (JDict kvs) @ rest) = Some (Inr (JDict kvs, rest))"
    proof (cases "kvs = []")
      case True
      then show ?thesis unfolding n using scan_once_empty(2) [of m rest] by simp
    next
      case False
      let ?body = "tl (iterencode_dict (Suc l) kvs) @ newline_indent l @ CHR ''}'' # rest"
      have dec: "decodes (snd kv)" if "kv \<in> set kvs" for kv
        using JDict [OF that, of "snd kv"] by (cases kv) simp
      have po: "parse_object m [] ?body = Some (Inr (JDict ([] @ kvs), rest))"
        by (rule parse_object_items [OF dec _ False cm]) (use wf in \<open>auto simp: wf_items_iff\<close>)
      from False have st: "iterencode_dict (Suc l) kvs = CHR 0x22 # tl (iterencode_dict (Suc l) kvs)"
        by (rule iterencode_dict_start)
      have "scan_once (Suc m) (CHR ''{'' # newline_indent (Suc l) @ CHR 0x22 # ?body)
          = parse_object m [] ?body"
        by (simp add: skip_ws_Cons)
      moreover have "iterencode_dict (Suc l) kvs @ newline_indent l @ CHR ''}'' # rest
          = CHR 0x22 # ?body"
        by (subst st) simp
      then have "iterencode l (JDict kvs) @ rest
          = CHR ''{'' # newline_indent (Suc l) @ CHR 0x22 # ?body"
        using False by simp
      ultimately show ?thesis unfolding n using po by simp
    qed
  qed
qed

lemma length_newline_indent [simp]: "length (newline_indent l) = Suc (4 * l)"
  by (simp add: newline_indent_def)

lemma str_int_nonempty: "str_int i \<noteq> []"
  using str_int_start [of i] by auto

lemma cost_le_length:
  "cost v \<le> length (iterencode l v)"
  "cost_list xs \<le> Suc (length (iterencode_list l xs))"
  "cost_items kvs \<le> Suc (length (iterencode_dict l kvs))"
proof (induction l v and l xs and l kvs rule: iterencode_iterencode_list_iterencode_dict.induct)
  case (1 level s)
  then show ?case by (simp add: encode_basestring_ascii_def)
next
  case (4 level i)
  then show ?case using str_int_nonempty [of i] by (cases "str_int i") simp_all
qed (auto simp: encode_basestring_ascii_def)

lemma json_loads_dumps:
  assumes "wf_json v"
  shows "json_loads (json_dumps v) = Some (Inr v)"
proof -
  let ?s = "iterencode 0 v"
  have "cost v \<le> Suc (2 * length ?s)" using cost_le_length(1) [of v 0] by simp
  from decodesD [OF decodes_all assms this, of "[]" 0]
  have "scan_once (Suc (2 * length ?s)) ?s = Some (Inr (v, []))" by simp
  moreover have "skip_ws ?s = ?s" using skip_ws_value [OF value_start_iterencode, of 0 v "[]"] by simp
  ultimately show ?thesis by (simp add: json_loads_def json_dumps_def)
qed

section \<open>The bound on nested calls is no restriction\<close>

text \<open>
  Every call that returns a value has read at least one character, so twice the length of
  the text and one more is more nested calls than any text needs: with a larger bound the
  decoder returns the same.
\<close>

lemma length_skip_ws: "length (skip_ws s) \<le> length s"
  by (simp add: skip_ws_def length_dropWhile_le)

lemma prepend_Inr:
  "prepend c r = Some (Inr (s, rest)) \<Longrightarrow> \<exists>s'. r = Some (Inr (s', rest))"
  by (auto simp: prepend_def split: option.splits sum.splits)

lemma scanstring_tail:
  assumes "scanstring (c # cs) = Some (Inr (str, rest))" and "c \<noteq> CHR 0x22"
  shows "\<exists>t s'. length t < length (c # cs) \<and> scanstring t = Some (Inr (s', rest))"
proof (cases "c = CHR 0x5C")
  case False
  with assms obtain s' where "scanstring cs = Some (Inr (s', rest))"
    by (auto split: if_splits dest: prepend_Inr)
  then show ?thesis by (intro exI [of _ cs] exI [of _ s']) simp
next
  case True
  show ?thesis
  proof (cases cs)
    case Nil
    with assms True show ?thesis by simp
  next
    case (Cons e es)
    show ?thesis
    proof (cases "e = CHR ''u''")
      case False
      with assms True Cons obtain s' where "scanstring es = Some (Inr (s', rest))"
        by (auto split: option.splits dest: prepend_Inr)
      then show ?thesis using Cons by (intro exI [of _ es] exI [of _ s']) simp
    next
      case u: True
      from assms True Cons u obtain a b x d rest' where es: "es = a # b # x # d # rest'"
        by (auto split: list.splits)
      from assms True Cons u es obtain s' where "scanstring rest' = Some (Inr (s', rest))"
        by (auto simp: Let_def split: option.splits if_splits dest: prepend_Inr)
      then show ?thesis using Cons es by (intro exI [of _ rest'] exI [of _ s']) simp
    qed
  qed
qed

lemma scanstring_shorter:
  "scanstring s = Some (Inr (str, rest)) \<Longrightarrow> length rest < length s"
proof (induction s arbitrary: str rule: length_induct)
  case (1 s)
  show ?case
  proof (cases s)
    case Nil
    with "1.prems" show ?thesis by simp
  next
    case (Cons c cs)
    show ?thesis
    proof (cases "c = CHR 0x22")
      case True
      with "1.prems" Cons show ?thesis by simp
    next
      case False
      from scanstring_tail [OF "1.prems" [unfolded Cons] False] obtain t s' where
        t: "length t < length s" "scanstring t = Some (Inr (s', rest))" using Cons by auto
      with "1.IH" have "length rest < length t" by blast
      with t show ?thesis by simp
    qed
  qed
qed

lemma scan_number_shorter:
  "scan_number s = Some (Inr (v, rest)) \<Longrightarrow> length rest < length s"
proof -
  assume a: "scan_number s = Some (Inr (v, rest))"
  have m: "length r < length t" if "match_integer t = Some (ds, r)" for t ds r
    using that length_dropWhile_le [of is_digit "tl t"]
    by (cases t) (auto simp: match_integer_def split: if_splits)
  show ?thesis
  proof (cases "take 1 s = ''-''")
    case True
    with a obtain ds where "match_integer (drop 1 s) = Some (ds, rest)"
      by (auto simp: scan_number_def split: option.splits if_splits)
    from m [OF this] show ?thesis by simp
  next
    case False
    with a obtain ds where "match_integer s = Some (ds, rest)"
      by (auto simp: scan_number_def split: option.splits if_splits)
    from m [OF this] show ?thesis .
  qed
qed

lemma skip_ws_shorter: "skip_ws s = d # ds \<Longrightarrow> length ds < length s"
  using length_skip_ws [of s] by simp

lemma starts_with_drop:
  "starts_with p s \<Longrightarrow> p \<noteq> [] \<Longrightarrow> length (drop (length p) s) < length s"
  by (cases s) (auto simp: starts_with_def)

lemma scan_once_consumes:
  assumes ih: "consumes n" and r: "scan_once (Suc n) s = Some (Inr (v, rest))"
  shows "length rest < length s"
proof (cases s)
  case Nil
  with r show ?thesis by simp
next
  case (Cons c cs)
  consider (str) "c = CHR 0x22" | (obj) "c \<noteq> CHR 0x22" "c = CHR ''{''"
    | (arr) "c \<noteq> CHR 0x22" "c \<noteq> CHR ''{''" "c = CHR ''[''"
    | (other) "c \<noteq> CHR 0x22" "c \<noteq> CHR ''{''" "c \<noteq> CHR ''[''" by blast
  then show ?thesis
  proof cases
    case str
    with r Cons obtain x where "scanstring cs = Some (Inr (x, rest))"
      by (auto split: option.splits sum.splits)
    from scanstring_shorter [OF this] Cons show ?thesis by simp
  next
    case obj
    from r Cons obj obtain d ds where sk: "skip_ws cs = d # ds"
      by (auto split: list.splits)
    note l = skip_ws_shorter [OF sk]
    show ?thesis
    proof (cases "d = CHR ''}''")
      case True
      with r Cons obj sk l show ?thesis by simp
    next
      case False
      with r Cons obj sk have "parse_object n [] ds = Some (Inr (v, rest))"
        by (auto split: if_splits)
      with ih have "length rest < length ds" unfolding consumes_def by blast
      with l Cons show ?thesis by simp
    qed
  next
    case arr
    from r Cons arr obtain d ds where sk: "skip_ws cs = d # ds"
      by (auto split: list.splits)
    note l = skip_ws_shorter [OF sk]
    show ?thesis
    proof (cases "d = CHR '']''")
      case True
      with r Cons arr sk l show ?thesis by simp
    next
      case False
      with r Cons arr sk have "parse_array n [] (d # ds) = Some (Inr (v, rest))"
        by (auto split: if_splits)
      with ih have "length rest < length (d # ds)" unfolding consumes_def by blast
      with l Cons show ?thesis by simp
    qed
  next
    case other
    with r Cons consider "starts_with ''null'' s" "rest = drop 4 s"
      | "starts_with ''true'' s" "rest = drop 4 s"
      | "starts_with ''false'' s" "rest = drop 5 s"
      | "scan_number s = Some (Inr (v, rest))"
      by (auto split: if_splits)
    then show ?thesis
    proof cases
      case 1
      with starts_with_drop [of "''null''" s] show ?thesis by simp
    next
      case 2
      with starts_with_drop [of "''true''" s] show ?thesis by simp
    next
      case 3
      with starts_with_drop [of "''false''" s] show ?thesis by simp
    next
      case 4
      then show ?thesis by (rule scan_number_shorter)
    qed
  qed
qed

lemma parse_array_step:
  assumes "parse_array (Suc n) acc s = Some (Inr (v, rest))"
  obtains x r1 d ds where "scan_once n s = Some (Inr (x, r1))" "skip_ws r1 = d # ds"
    "(d = CHR '']'' \<and> rest = ds)
     \<or> (d = CHR '','' \<and> parse_array n (acc @ [x]) (skip_ws ds) = Some (Inr (v, rest)))"
proof -
  from assms obtain x r1 where a: "scan_once n s = Some (Inr (x, r1))"
    by (auto split: option.splits sum.splits)
  with assms obtain d ds where b: "skip_ws r1 = d # ds"
    by (auto split: list.splits)
  with assms a have "(d = CHR '']'' \<and> rest = ds)
     \<or> (d = CHR '','' \<and> parse_array n (acc @ [x]) (skip_ws ds) = Some (Inr (v, rest)))"
    by (auto split: if_splits)
  with a b that show ?thesis by blast
qed

lemma parse_array_consumes:
  assumes ih: "consumes n" and r: "parse_array (Suc n) acc s = Some (Inr (v, rest))"
  shows "length rest < length s"
proof -
  from r obtain x r1 d ds where a: "scan_once n s = Some (Inr (x, r1))" and b: "skip_ws r1 = d # ds"
    and c: "(d = CHR '']'' \<and> rest = ds)
     \<or> (d = CHR '','' \<and> parse_array n (acc @ [x]) (skip_ws ds) = Some (Inr (v, rest)))"
    by (rule parse_array_step)
  from ih a have l1: "length r1 < length s" unfolding consumes_def by blast
  note l2 = skip_ws_shorter [OF b]
  from c show ?thesis
  proof
    assume "d = CHR '']'' \<and> rest = ds"
    with l1 l2 show ?thesis by simp
  next
    assume "d = CHR '','' \<and> parse_array n (acc @ [x]) (skip_ws ds) = Some (Inr (v, rest))"
    with ih have "length rest < length (skip_ws ds)" unfolding consumes_def by blast
    with l1 l2 length_skip_ws [of ds] show ?thesis by simp
  qed
qed

lemma parse_object_step:
  assumes "parse_object (Suc n) acc s = Some (Inr (v, rest))"
  obtains key r1 cs x r2 d ds where "scanstring s = Some (Inr (key, r1))"
    "skip_ws r1 = CHR '':'' # cs" "scan_once n (skip_ws cs) = Some (Inr (x, r2))"
    "skip_ws r2 = d # ds"
    "(d = CHR ''}'' \<and> rest = ds)
     \<or> (d = CHR '','' \<and> (\<exists>qs. skip_ws ds = CHR 0x22 # qs
           \<and> parse_object n (AList.update key x acc) qs = Some (Inr (v, rest))))"
proof -
  from assms obtain key r1 where a: "scanstring s = Some (Inr (key, r1))"
    by (auto split: option.splits sum.splits)
  with assms obtain cs where b: "skip_ws r1 = CHR '':'' # cs"
    by (auto split: list.splits if_splits)
  with assms a obtain x r2 where c: "scan_once n (skip_ws cs) = Some (Inr (x, r2))"
    by (auto split: option.splits sum.splits)
  with assms a b obtain d ds where d: "skip_ws r2 = d # ds"
    by (auto split: list.splits)
  with assms a b c have "(d = CHR ''}'' \<and> rest = ds)
     \<or> (d = CHR '','' \<and> (\<exists>qs. skip_ws ds = CHR 0x22 # qs
           \<and> parse_object n (AList.update key x acc) qs = Some (Inr (v, rest))))"
    by (auto split: if_splits list.splits)
  with a b c d that show ?thesis by blast
qed

lemma parse_object_consumes:
  assumes ih: "consumes n" and r: "parse_object (Suc n) acc s = Some (Inr (v, rest))"
  shows "length rest < length s"
proof -
  from r obtain key r1 cs x r2 d ds where a: "scanstring s = Some (Inr (key, r1))"
    and b: "skip_ws r1 = CHR '':'' # cs" and c: "scan_once n (skip_ws cs) = Some (Inr (x, r2))"
    and d: "skip_ws r2 = d # ds"
    and e: "(d = CHR ''}'' \<and> rest = ds)
     \<or> (d = CHR '','' \<and> (\<exists>qs. skip_ws ds = CHR 0x22 # qs
           \<and> parse_object n (AList.update key x acc) qs = Some (Inr (v, rest))))"
    by (rule parse_object_step)
  note l1 = scanstring_shorter [OF a]
  note l2 = skip_ws_shorter [OF b]
  from ih c have l3: "length r2 < length (skip_ws cs)" unfolding consumes_def by blast
  note l4 = skip_ws_shorter [OF d]
  from e show ?thesis
  proof
    assume "d = CHR ''}'' \<and> rest = ds"
    with l1 l2 l3 l4 length_skip_ws [of cs] show ?thesis by simp
  next
    assume "d = CHR '','' \<and> (\<exists>qs. skip_ws ds = CHR 0x22 # qs
           \<and> parse_object n (AList.update key x acc) qs = Some (Inr (v, rest)))"
    then obtain qs where q: "skip_ws ds = CHR 0x22 # qs"
      and p: "parse_object n (AList.update key x acc) qs = Some (Inr (v, rest))" by blast
    from ih p have "length rest < length qs" unfolding consumes_def by blast
    with l1 l2 l3 l4 length_skip_ws [of cs] skip_ws_shorter [OF q] show ?thesis by simp
  qed
qed

lemma consumes_all: "consumes n"
proof (induction n)
  case 0
  show ?case by (simp add: consumes_def)
next
  case (Suc n)
  show ?case unfolding consumes_def
    using scan_once_consumes [OF Suc] parse_array_consumes [OF Suc] parse_object_consumes [OF Suc]
    by blast
qed

lemma consumesD:
  "scan_once n s = Some (Inr (v, rest)) \<Longrightarrow> length rest < length s"
  using consumes_all [of n] unfolding consumes_def by blast

lemma enoughD:
  assumes "enough n"
  shows "2 * length s + 1 \<le> n \<Longrightarrow> scan_once (Suc n) s = scan_once n s"
    and "2 * length s + 2 \<le> n \<Longrightarrow> parse_array (Suc n) acc s = parse_array n acc s"
    and "2 * length s + 2 \<le> n \<Longrightarrow> parse_object (Suc n) acc' s = parse_object n acc' s"
  using assms unfolding enough_def by blast+

lemma scan_once_fuel:
  assumes "\<And>c cs d ds. s = c # cs \<Longrightarrow> skip_ws cs = d # ds \<Longrightarrow>
      parse_object m [] ds = parse_object n [] ds
      \<and> parse_array m [] (d # ds) = parse_array n [] (d # ds)"
  shows "scan_once (Suc m) s = scan_once (Suc n) s"
  using assms by (simp split: list.split)

lemma parse_array_fuel:
  assumes "scan_once m s = scan_once n s"
    and "\<And>v rest d ds. scan_once n s = Some (Inr (v, rest)) \<Longrightarrow> skip_ws rest = d # ds \<Longrightarrow>
      parse_array m (acc @ [v]) (skip_ws ds) = parse_array n (acc @ [v]) (skip_ws ds)"
  shows "parse_array (Suc m) acc s = parse_array (Suc n) acc s"
  using assms by (simp split: option.split sum.split list.split prod.split)

lemma parse_object_fuel:
  assumes "\<And>key rest c cs. scanstring s = Some (Inr (key, rest)) \<Longrightarrow> skip_ws rest = c # cs \<Longrightarrow>
      scan_once m (skip_ws cs) = scan_once n (skip_ws cs)"
    and "\<And>key rest c cs v rest' d ds q qs. scanstring s = Some (Inr (key, rest)) \<Longrightarrow>
      skip_ws rest = c # cs \<Longrightarrow> scan_once n (skip_ws cs) = Some (Inr (v, rest')) \<Longrightarrow>
      skip_ws rest' = d # ds \<Longrightarrow> skip_ws ds = q # qs \<Longrightarrow>
      parse_object m (AList.update key v acc) qs = parse_object n (AList.update key v acc) qs"
  shows "parse_object (Suc m) acc s = parse_object (Suc n) acc s"
  using assms by (simp split: option.split sum.split list.split prod.split)

lemma scan_once_enough:
  assumes ih: "enough n" and b: "2 * length s + 1 \<le> Suc n"
  shows "scan_once (Suc (Suc n)) s = scan_once (Suc n) s"
proof (rule scan_once_fuel)
  fix c cs d ds
  assume s: "s = c # cs" and sk: "skip_ws cs = d # ds"
  from skip_ws_shorter [OF sk] s b
  have l1: "2 * length ds + 2 \<le> n" and l2: "2 * length (d # ds) + 2 \<le> n" by simp_all
  have o: "parse_object (Suc n) [] ds = parse_object n [] ds"
    using l1 by (rule enoughD [OF ih])
  have a: "parse_array (Suc n) [] (d # ds) = parse_array n [] (d # ds)"
    using l2 by (rule enoughD [OF ih])
  from o a show "parse_object (Suc n) [] ds = parse_object n [] ds
      \<and> parse_array (Suc n) [] (d # ds) = parse_array n [] (d # ds)" ..
qed

lemma parse_array_enough:
  assumes ih: "enough n" and b: "2 * length s + 2 \<le> Suc n"
  shows "parse_array (Suc (Suc n)) acc s = parse_array (Suc n) acc s"
proof (rule parse_array_fuel)
  from b have "2 * length s + 1 \<le> n" by simp
  then show "scan_once (Suc n) s = scan_once n s" by (rule enoughD [OF ih])
next
  fix v rest d ds
  assume 1: "scan_once n s = Some (Inr (v, rest))" and 2: "skip_ws rest = d # ds"
  from consumesD [OF 1] skip_ws_shorter [OF 2] length_skip_ws [of ds] b
  have "2 * length (skip_ws ds) + 2 \<le> n" by simp
  then show "parse_array (Suc n) (acc @ [v]) (skip_ws ds) = parse_array n (acc @ [v]) (skip_ws ds)"
    by (rule enoughD [OF ih])
qed

lemma parse_object_enough:
  assumes ih: "enough n" and b: "2 * length s + 2 \<le> Suc n"
  shows "parse_object (Suc (Suc n)) acc s = parse_object (Suc n) acc s"
proof (rule parse_object_fuel)
  fix key rest c cs
  assume 1: "scanstring s = Some (Inr (key, rest))" and 2: "skip_ws rest = c # cs"
  from scanstring_shorter [OF 1] skip_ws_shorter [OF 2] length_skip_ws [of cs] b
  have l: "2 * length (skip_ws cs) + 1 \<le> n" by simp
  then show "scan_once (Suc n) (skip_ws cs) = scan_once n (skip_ws cs)"
    by (rule enoughD [OF ih])
  fix v rest' d ds q qs
  assume 3: "scan_once n (skip_ws cs) = Some (Inr (v, rest'))" and 4: "skip_ws rest' = d # ds"
    and 5: "skip_ws ds = q # qs"
  from l consumesD [OF 3] skip_ws_shorter [OF 4] skip_ws_shorter [OF 5]
  have "2 * length qs + 2 \<le> n" by simp
  then show "parse_object (Suc n) (AList.update key v acc) qs
      = parse_object n (AList.update key v acc) qs"
    by (rule enoughD [OF ih])
qed

lemma enough_all: "enough n"
proof (induction n)
  case 0
  show ?case by (simp add: enough_def)
next
  case (Suc n)
  show ?case unfolding enough_def
    by (intro conjI allI impI scan_once_enough [OF Suc] parse_array_enough [OF Suc]
        parse_object_enough [OF Suc])
qed

lemma scan_once_more_fuel:
  "2 * length s + 1 \<le> n \<Longrightarrow> scan_once (n + k) s = scan_once n s"
proof (induction k)
  case 0
  show ?case by simp
next
  case (Suc k)
  from Suc.prems have "2 * length s + 1 \<le> n + k" by simp
  then have "scan_once (Suc (n + k)) s = scan_once (n + k) s"
    by (rule enoughD [OF enough_all])
  with Suc show ?case by (simp del: scan_once.simps)
qed

lemma scan_once_any_fuel:
  assumes "Suc (2 * length s) \<le> n"
  shows "scan_once n (skip_ws s) = scan_once (Suc (2 * length s)) (skip_ws s)"
proof -
  from assms obtain k where n: "n = Suc (2 * length s) + k" using le_Suc_ex by blast
  from length_skip_ws [of s] have "2 * length (skip_ws s) + 1 \<le> Suc (2 * length s)" by simp
  from scan_once_more_fuel [OF this, of k] n show ?thesis by (simp del: scan_once.simps)
qed

section \<open>What a run leaves for the pairs of a structure\<close>

lemma is_dir_mono:
  assumes "is_dir p w" "cwd v = cwd w" "le_fs (fs w) (fs v)"
  shows "is_dir p v"
proof -
  from is_dir_post [OF assms(1)] obtain t where r: "resolve w p = Inr t" and d: "fs w t = Some Dir"
    by blast
  from assms(3) have m: "\<And>u. fs w u = Some Dir \<Longrightarrow> fs v u = Some Dir" by (simp add: le_fs_def)
  from resolve_mono [OF r assms(2) m] m [OF d] show ?thesis by (simp add: is_dir_def)
qed

lemma path_mkdir_is_dir: "path_mkdir p w = (None, w') \<Longrightarrow> is_dir p w'"
  using path_mkdir_post [of p w w'] by (auto simp: is_dir_def)

lemma is_dir_say [simp]: "is_dir p (say l w) = is_dir p w"
  by (simp add: is_dir_def resolve_def split: sum.splits)

lemma create_items_step:
  assumes "create_items base ((name, subcontent) # rest) w = (None, w')"
  obtains w1 w2 where "isinstance_dict subcontent \<or> subcontent = JNull"
      "path_mkdir (joinpath base name) w = (None, w1)"
      "create (joinpath base name) subcontent
         (say (''Created directory: '' @ path_str (joinpath base name)) w1) = (None, w2)"
      "create_items base rest w2 = (None, w')"
    | w1 where "\<not> (isinstance_dict subcontent \<or> subcontent = JNull)"
      "write_text (joinpath base name) (py_str subcontent) w = (None, w1)"
      "create_items base rest (say (''Created file: '' @ path_str (joinpath base name)) w1) = (None, w')"
  using assms by (auto simp: Let_def split: if_splits prod.splits option.splits)

lemma entries_made:
  "create base c w = (None, w') \<Longrightarrow> (p, x) \<in> set (entries base c) \<Longrightarrow>
     isinstance_dict x \<or> x = JNull \<Longrightarrow> is_dir p w'"
  "create_items base kvs w = (None, w') \<Longrightarrow> (p, x) \<in> set (entries_items base kvs) \<Longrightarrow>
     isinstance_dict x \<or> x = JNull \<Longrightarrow> is_dir p w'"
proof (induction base c w and base kvs w arbitrary: w' and w' rule: create_create_items.induct)
  case (8 base name subcontent rest w)
  let ?path = "joinpath base name"
  let ?line = "''Created directory: '' @ path_str ?path"
  from "8.prems"(1) show ?case
  proof (cases rule: create_items_step)
    case (1 w1 w2)
    note g = create_grow(2) [OF 1(4)]
    from "8.prems"(2) consider (here) "p = ?path" "x = subcontent"
      | (inside) "(p, x) \<in> set (entries ?path subcontent)"
      | (later) "(p, x) \<in> set (entries_items base rest)" by auto
    then show ?thesis
    proof cases
      case here
      from path_mkdir_is_dir [OF 1(2)] have "is_dir ?path w1" .
      with create_grow(1) [OF 1(3)] have "is_dir ?path w2"
        by (auto intro: is_dir_mono [where w = "say ?line w1"])
      with g here show ?thesis by (auto intro: is_dir_mono)
    next
      case inside
      have "is_dir p w2"
        by (rule "8.IH"(1) [OF refl 1(1) 1(2) [symmetric] refl 1(3) inside "8.prems"(3)])
      with g show ?thesis by (auto intro: is_dir_mono)
    next
      case later
      show ?thesis
        by (rule "8.IH"(2) [OF refl _ refl 1(4) later "8.prems"(3)])
          (use 1 in \<open>simp add: Let_def\<close>)
    qed
  next
    case (2 w1)
    from 2(1) have "entries ?path subcontent = []" by (cases subcontent) (auto simp: isinstance_dict_def)
    with "8.prems"(2,3) 2(1) have later: "(p, x) \<in> set (entries_items base rest)" by auto
    show ?thesis
      by (rule "8.IH"(2) [OF refl _ refl 2(3) later "8.prems"(3)])
        (use 2 in \<open>simp add: Let_def\<close>)
  qed
qed auto

subsection \<open>No \<^verbatim>\<open>TypeError\<close> from a mapping\<close>

lemma os_mkdir_error: "os_mkdir p w = (Some e, w') \<Longrightarrow> e \<noteq> TypeError"
  by (auto dest!: os_mkdir_Some dest: resolve_error)

lemma mkdir_noparents_error: "mkdir_noparents p w = (Some e, w') \<Longrightarrow> e \<noteq> TypeError"
  by (cases "os_mkdir p w")
     (auto simp: mkdir_noparents_def split: option.splits if_splits dest: os_mkdir_error)

lemma path_mkdir_error: "path_mkdir p w = (Some e, w') \<Longrightarrow> e \<noteq> TypeError"
proof (induction p w arbitrary: e w' rule: path_mkdir.induct)
  case (1 p w)
  obtain r0 w0 where o: "os_mkdir p w = (r0, w0)" by (cases "os_mkdir p w")
  show ?case
  proof (cases "r0 = Some FileNotFoundError \<and> parent p \<noteq> p")
    case True
    obtain r1 w1 where pm: "path_mkdir (parent p) w0 = (r1, w1)"
      by (cases "path_mkdir (parent p) w0")
    show ?thesis
    proof (cases r1)
      case None
      with "1.prems" o True pm have "mkdir_noparents p w1 = (Some e, w')"
        by (simp add: path_mkdir_unfold [of p w])
      then show ?thesis by (rule mkdir_noparents_error)
    next
      case (Some e1)
      with "1.prems" o True pm have "e = e1"
        by (simp add: path_mkdir_unfold [of p w])
      with "1.IH" [OF o [symmetric] _ _ _ pm [unfolded Some]] True show ?thesis by auto
    qed
  next
    case False
    with "1.prems" o have "r0 = Some e"
      by (auto simp: path_mkdir_unfold [of p w] split: option.splits if_splits)
    with o show ?thesis by (auto dest: os_mkdir_error)
  qed
qed

lemma write_text_error: "write_text p s w = (Some e, w') \<Longrightarrow> e \<noteq> TypeError"
  by (auto dest!: write_text_Some dest: resolve_error)

lemma mapping_no_type_error:
  "create base c w = (Some e, w') \<Longrightarrow> isinstance_dict c \<or> c = JNull \<Longrightarrow> e \<noteq> TypeError"
  "create_items base kvs w = (Some e, w') \<Longrightarrow> e \<noteq> TypeError"
proof (induction base c w and base kvs w arbitrary: e w' and e w' rule: create_create_items.induct)
  case (8 base name subcontent rest w)
  let ?path = "joinpath base name"
  show ?case
  proof (cases "isinstance_dict subcontent \<or> subcontent = JNull")
    case True
    let ?line = "''Created directory: '' @ path_str ?path"
    obtain r1 w1 where m: "path_mkdir ?path w = (r1, w1)" by (cases "path_mkdir ?path w")
    show ?thesis
    proof (cases r1)
      case (Some e1)
      with "8.prems" True m have "e = e1" by (simp add: Let_def)
      with m Some show ?thesis by (auto dest: path_mkdir_error)
    next
      case None
      obtain r2 w2 where c: "create ?path subcontent (say ?line w1) = (r2, w2)"
        by (cases "create ?path subcontent (say ?line w1)")
      show ?thesis
      proof (cases r2)
        case (Some e2)
        with "8.prems" True m None c have "e = e2" by (simp add: Let_def)
        with "8.IH"(1) [OF refl True m [symmetric] None c [unfolded Some] True] show ?thesis
          by simp
      next
        case n2: None
        with "8.prems" True m None c have r: "create_items base rest w2 = (Some e, w')"
          by (simp add: Let_def)
        show ?thesis
          by (rule "8.IH"(2) [OF refl _ n2 r]) (use True m None c in simp)
      qed
    qed
  next
    case False
    let ?line = "''Created file: '' @ path_str ?path"
    obtain r1 w1 where m: "write_text ?path (py_str subcontent) w = (r1, w1)"
      by (cases "write_text ?path (py_str subcontent) w")
    show ?thesis
    proof (cases r1)
      case (Some e1)
      with "8.prems" False m have "e = e1" by (simp add: Let_def)
      with m Some show ?thesis by (auto dest: write_text_error)
    next
      case None
      with "8.prems" False m have r: "create_items base rest (say ?line w1) = (Some e, w')"
        by (simp add: Let_def)
      show ?thesis
        by (rule "8.IH"(2) [OF refl _ refl r]) (use False m None in simp)
    qed
  qed
qed (auto simp: isinstance_dict_def)

subsection \<open>The calls of a run over simple keys\<close>

lemma steps_Nil [simp]: "steps f B [] = []"
  by (simp add: steps_def)

lemma steps_Cons: "steps f B (x # ps) = step_of f B x @ steps f B ps"
  by (simp add: steps_def)

lemma steps_append: "steps f B (ps @ qs) = steps f B ps @ steps f B qs"
  by (simp add: steps_def)

lemma step_of_cong: "g (B @ p) = f (B @ p) \<Longrightarrow> step_of g B (p, x) = step_of f B (p, x)"
  by (simp add: step_of_def)

lemma steps_cong:
  "(\<And>p x. (p, x) \<in> set ps \<Longrightarrow> g (B @ p) = f (B @ p)) \<Longrightarrow> steps g B ps = steps f B ps"
proof (induction ps)
  case Nil
  show ?case by simp
next
  case (Cons a ps)
  obtain p x where a: "a = (p, x)" by (cases a)
  have "g (B @ p) = f (B @ p)" by (rule Cons.prems [of p x]) (simp add: a)
  then have "step_of g B a = step_of f B a" unfolding a by (rule step_of_cong)
  moreover have "steps g B ps = steps f B ps"
  proof (rule Cons.IH)
    fix q y assume "(q, y) \<in> set ps"
    then have "(q, y) \<in> set (a # ps)" by simp
    then show "g (B @ q) = f (B @ q)" by (rule Cons.prems)
  qed
  ultimately show ?case by (simp add: steps_Cons)
qed

lemma step_of_under:
  "g (B @ k # p) = f (B @ k # p) \<Longrightarrow> step_of g (B @ [k]) (p, x) = step_of f B (k # p, x)"
  by (simp add: step_of_def)

lemma steps_under:
  "(\<And>p x. (p, x) \<in> set ps \<Longrightarrow> g (B @ k # p) = f (B @ k # p)) \<Longrightarrow>
     steps g (B @ [k]) ps = steps f B (map (\<lambda>(p, x). (k # p, x)) ps)"
proof (induction ps)
  case Nil
  show ?case by simp
next
  case (Cons a ps)
  obtain p x where a: "a = (p, x)" by (cases a)
  have "g (B @ k # p) = f (B @ k # p)" by (rule Cons.prems [of p x]) (simp add: a)
  then have "step_of g (B @ [k]) a = step_of f B (k # p, x)" unfolding a by (rule step_of_under)
  moreover have "steps g (B @ [k]) ps = steps f B (map (\<lambda>(p, x). (k # p, x)) ps)"
  proof (rule Cons.IH)
    fix q y assume "(q, y) \<in> set ps"
    then have "(q, y) \<in> set (a # ps)" by simp
    then show "g (B @ k # q) = f (B @ k # q)" by (rule Cons.prems)
  qed
  ultimately show ?case using a by (simp add: steps_Cons)
qed

lemma path_mkdir_step:
  assumes "resolve w p = Inr t" "fs w t = None \<or> fs w t = Some Dir"
  shows "\<exists>w'. path_mkdir p w = (None, w') \<and> fs w' = (fs w)(t \<mapsto> Dir) \<and> cwd w' = cwd w
     \<and> trace w' = trace w @ (if fs w t = None then [Mkdir t] else [])"
proof (cases "fs w t")
  case None
  from path_mkdir_fresh [OF assms(1) None] None show ?thesis by simp
next
  case (Some n)
  with assms(2) have d: "fs w t = Some Dir" by simp
  from path_mkdir_exists [OF assms(1) d] d show ?thesis by (simp add: fun_upd_idem)
qed

lemma write_text_step:
  assumes "resolve w p = Inr t" "fs w t \<noteq> Some Dir"
  shows "\<exists>w'. write_text p s w = (None, w') \<and> fs w' = (fs w)(t \<mapsto> File s) \<and> cwd w' = cwd w
     \<and> trace w' = trace w @ (if fs w t = None then [Creat t, Write t s] else [Write t s])"
proof -
  from write_text_ok [OF assms, of s] obtain w' where
    m: "write_text p s w = (None, w')" and f: "fs w' = (fs w)(t \<mapsto> File s)" and c: "cwd w' = cwd w"
    by blast
  from write_text_None [OF m] assms(1) m f c show ?thesis by auto
qed

lemma create_steps:
  "simple_keys c \<Longrightarrow> isinstance_dict c \<or> c = JNull \<Longrightarrow> resolve w bp = Inr B \<Longrightarrow>
     fs w B = Some Dir \<Longrightarrow> fits (fs w) B (key_paths c) \<Longrightarrow>
     \<exists>w'. create bp c w = (None, w') \<and> cwd w' = cwd w \<and> fs w' = lay B c (fs w)
       \<and> trace w' = trace w @ steps (fs w) B (key_paths c)"
  "simple_items kvs \<Longrightarrow> distinct (map fst kvs) \<Longrightarrow> resolve w bp = Inr B \<Longrightarrow>
     fs w B = Some Dir \<Longrightarrow> fits (fs w) B (items_paths kvs) \<Longrightarrow>
     \<exists>w'. create_items bp kvs w = (None, w') \<and> cwd w' = cwd w \<and> fs w' = lay_items B kvs (fs w)
       \<and> trace w' = trace w @ steps (fs w) B (items_paths kvs)"
proof (induction bp c w and bp kvs w arbitrary: B and B rule: create_create_items.induct)
  case (1 base kvs w)
  then show ?case by simp
next
  case (8 base name sub rest w)
  let ?path = "joinpath base name"
  let ?T = "B @ [name]"
  from "8.prems"(1,2) have sn: "simple_name name" and ss: "simple_keys sub"
    and sr: "simple_items rest" "distinct (map fst rest)" and nk: "name \<notin> fst ` set rest"
    by auto
  from "8.prems"(5) have fn: "fits_node (fs w ?T) sub"
    and fsub: "fits (fs w) ?T (key_paths sub)"
    and frest: "fits (fs w) B (items_paths rest)"
    by (auto simp: fits_def list_all_iff)
  have rT: "resolve w ?path = Inr ?T" by (rule resolve_child [OF "8.prems"(3,4) sn])
  have rest_same: "g (B @ p) = fs w (B @ p)"
    if "(p, x) \<in> set (items_paths rest)"
      and "\<And>k q. k \<noteq> name \<Longrightarrow> g (B @ k # q) = fs w (B @ k # q)" for g p x
  proof -
    from key_paths_nonempty(2) [OF that(1)] obtain k q where "p = k # q" "k \<in> fst ` set rest"
      by blast
    with nk that(2) [of k q] show ?thesis by auto
  qed
  have split: "steps (fs w) B (items_paths ((name, sub) # rest))
      = step_of (fs w) B ([name], sub)
        @ steps (fs w) B (map (\<lambda>(p, x). (name # p, x)) (key_paths sub))
        @ steps (fs w) B (items_paths rest)"
    by (simp add: steps_Cons steps_append)
  show ?case
  proof (cases "isinstance_dict sub \<or> sub = JNull")
    case True
    let ?line = "''Created directory: '' @ path_str ?path"
    from fn True have "fs w ?T = None \<or> fs w ?T = Some Dir"
      by (auto simp: fits_node_def split: option.splits node.splits)
    from path_mkdir_step [OF rT this] obtain w1 where m: "path_mkdir ?path w = (None, w1)"
      and f1: "fs w1 = (fs w)(?T \<mapsto> Dir)" and c1: "cwd w1 = cwd w"
      and t1: "trace w1 = trace w @ (if fs w ?T = None then [Mkdir ?T] else [])" by blast
    from t1 True have t1': "trace w1 = trace w @ step_of (fs w) B ([name], sub)"
      by (simp add: step_of_def)
    have r1: "resolve (say ?line w1) ?path = Inr ?T"
      by (rule resolve_mono [OF rT]) (simp_all add: c1 f1)
    have fit1: "fits (fs (say ?line w1)) ?T (key_paths sub)"
      by (rule fits_cong [OF fsub]) (auto simp: f1 dest: key_paths_nonempty(1))
    have dT: "fs (say ?line w1) ?T = Some Dir" by (simp add: f1)
    from "8.IH"(1) [OF refl True m [symmetric] refl ss True r1 dT fit1]
    obtain w2 where c: "create ?path sub (say ?line w1) = (None, w2)"
      and c2': "cwd w2 = cwd (say ?line w1)"
      and f2': "fs w2 = lay ?T sub (fs (say ?line w1))"
      and t2': "trace w2 = trace (say ?line w1) @ steps (fs (say ?line w1)) ?T (key_paths sub)"
      by blast
    from c2' c1 have c2: "cwd w2 = cwd w" by simp
    from f2' have f2: "fs w2 = lay ?T sub ((fs w)(?T \<mapsto> Dir))"
      by (simp only: say_simps f1)
    have "steps ((fs w)(?T \<mapsto> Dir)) ?T (key_paths sub)
        = steps (fs w) B (map (\<lambda>(p, x). (name # p, x)) (key_paths sub))"
      by (rule steps_under) (auto dest: key_paths_nonempty(1))
    with t2' have t2: "trace w2 = trace w1
        @ steps (fs w) B (map (\<lambda>(p, x). (name # p, x)) (key_paths sub))"
      by (simp only: say_simps f1)
    have g2: "le_fs (fs w) (fs w2)"
      using path_mkdir_grow [OF m] create_grow(1) [OF c] by (auto intro: le_fs_trans)
    have r2: "resolve w2 base = Inr B"
      by (rule resolve_mono [OF "8.prems"(3) c2]) (use g2 in \<open>simp add: le_fs_def\<close>)
    have d2: "fs w2 B = Some Dir" using g2 "8.prems"(4) by (simp add: le_fs_def)
    have same2: "fs w2 (B @ p) = fs w (B @ p)" if "(p, x) \<in> set (items_paths rest)" for p x
    proof (rule rest_same [OF that])
      fix k q :: string and qs assume "k \<noteq> name"
      then show "fs w2 (B @ k # qs) = fs w (B @ k # qs)"
        by (simp add: f2 lay_sibling)
    qed
    have fit2: "fits (fs w2) B (items_paths rest)"
      by (rule fits_cong [OF frest]) (rule same2)
    have s2: "steps (fs w2) B (items_paths rest) = steps (fs w) B (items_paths rest)"
      by (rule steps_cong) (rule same2)
    have "\<exists>w'. create_items base rest w2 = (None, w') \<and> cwd w' = cwd w2
        \<and> fs w' = lay_items B rest (fs w2)
        \<and> trace w' = trace w2 @ steps (fs w2) B (items_paths rest)"
      by (rule "8.IH"(2) [OF refl _ refl sr r2 d2 fit2]) (use True m c in simp)
    then obtain w' where r: "create_items base rest w2 = (None, w')" and c3: "cwd w' = cwd w2"
      and f3: "fs w' = lay_items B rest (fs w2)"
      and t3: "trace w' = trace w2 @ steps (fs w2) B (items_paths rest)" by blast
    from t3 t2 t1' s2 have "trace w' = trace w @ steps (fs w) B (items_paths ((name, sub) # rest))"
      by (simp only: split append_assoc)
    moreover from True m c r have "create_items base ((name, sub) # rest) w = (None, w')"
      by (simp add: Let_def)
    moreover from f3 f2 True have "fs w' = lay_items B ((name, sub) # rest) (fs w)" by simp
    moreover from c3 c2 have "cwd w' = cwd w" by simp
    ultimately show ?thesis by (intro exI [of _ w'] conjI)
  next
    case False
    let ?line = "''Created file: '' @ path_str ?path"
    from fn False have "fs w ?T \<noteq> Some Dir"
      by (auto simp: fits_node_def split: option.splits node.splits)
    from write_text_step [OF rT this, of "py_str sub"] obtain w1 where
      m: "write_text ?path (py_str sub) w = (None, w1)"
      and f1: "fs w1 = (fs w)(?T \<mapsto> File (py_str sub))" and c1: "cwd w1 = cwd w"
      and t1: "trace w1 = trace w @ (if fs w ?T = None then [Creat ?T, Write ?T (py_str sub)]
          else [Write ?T (py_str sub)])" by blast
    from t1 False have t1': "trace w1 = trace w @ step_of (fs w) B ([name], sub)"
      by (simp add: step_of_def)
    from False have "key_paths sub = []" by (cases sub) (auto simp: isinstance_dict_def)
    then have e: "steps (fs w) B (map (\<lambda>(p, x). (name # p, x)) (key_paths sub)) = []" by simp
    have g1: "le_fs (fs w) (fs w1)" using write_text_grow [OF m] by simp
    have r1: "resolve (say ?line w1) base = Inr B"
      by (rule resolve_mono [OF "8.prems"(3)]) (use g1 c1 in \<open>simp_all add: le_fs_def\<close>)
    have d1: "fs (say ?line w1) B = Some Dir" using g1 "8.prems"(4) by (simp add: le_fs_def)
    have same1: "fs (say ?line w1) (B @ p) = fs w (B @ p)"
      if "(p, x) \<in> set (items_paths rest)" for p x
    proof (rule rest_same [OF that])
      fix k q :: string and qs assume "k \<noteq> name"
      then show "fs (say ?line w1) (B @ k # qs) = fs w (B @ k # qs)"
        by (simp add: f1)
    qed
    have fit1: "fits (fs (say ?line w1)) B (items_paths rest)"
      by (rule fits_cong [OF frest]) (rule same1)
    have s1: "steps (fs (say ?line w1)) B (items_paths rest) = steps (fs w) B (items_paths rest)"
      by (rule steps_cong) (rule same1)
    have "\<exists>w'. create_items base rest (say ?line w1) = (None, w') \<and> cwd w' = cwd (say ?line w1)
        \<and> fs w' = lay_items B rest (fs (say ?line w1))
        \<and> trace w' = trace (say ?line w1) @ steps (fs (say ?line w1)) B (items_paths rest)"
      by (rule "8.IH"(2) [OF refl _ refl sr r1 d1 fit1]) (use False m in simp)
    then obtain w' where r: "create_items base rest (say ?line w1) = (None, w')"
      and c3: "cwd w' = cwd (say ?line w1)"
      and f3: "fs w' = lay_items B rest (fs (say ?line w1))"
      and t3: "trace w' = trace (say ?line w1) @ steps (fs (say ?line w1)) B (items_paths rest)"
      by blast
    from s1 have s1': "steps (fs w1) B (items_paths rest) = steps (fs w) B (items_paths rest)"
      by (simp only: say_simps)
    from t3 have "trace w' = trace w1 @ steps (fs w) B (items_paths rest)"
      by (simp only: say_simps s1')
    with t1' e have "trace w' = trace w @ steps (fs w) B (items_paths ((name, sub) # rest))"
      by (simp only: split append_assoc append_Nil)
    moreover from False m r have "create_items base ((name, sub) # rest) w = (None, w')"
      by (simp add: Let_def)
    moreover from f3 f1 False have "fs w' = lay_items B ((name, sub) # rest) (fs w)" by simp
    moreover from c3 c1 have "cwd w' = cwd w" by simp
    ultimately show ?thesis by (intro exI [of _ w'] conjI)
  qed
qed (auto simp: isinstance_dict_def)

section \<open>The properties of the specification\<close>

text \<open>
  C4. Running the materializer twice with the same structure against the same base
  directory is idempotent: when the first run succeeds, the second run succeeds as well
  (directories that exist are no error) and leaves the tree, with every file's content,
  as the first run left it. It holds for every structure, base directory and starting
  tree.
\<close>

theorem create_structure_idempotent:
  assumes "create_structure base_dir structure w = (None, w1)"
  shows "\<exists>w2. create_structure base_dir structure w1 = (None, w2) \<and> fs w2 = fs w1"
proof -
  let ?line = "CHR 0x0A # ''Project structure created successfully at '' @ path_str (Path base_dir)"
  from assms obtain w0 where c: "create (Path base_dir) structure w = (None, w0)"
    and w1: "w1 = say ?line w0"
    by (auto simp: create_structure_def Let_def split: prod.splits option.splits)
  from create_grow(1) [OF c] have cw: "cwd w0 = cwd w" by simp
  have "\<exists>v'. create (Path base_dir) structure w1 = (None, v') \<and> agree (fs w0) (fs w0) (fs v')
      \<and> cwd v' = cwd w0"
    by (rule sim_create(1) [OF c]) (simp_all add: w1 cw)
  then obtain v' where "create (Path base_dir) structure w1 = (None, v')" "fs v' = fs w0"
    by (auto dest: agree_final)
  then show ?thesis by (simp add: create_structure_def Let_def w1)
qed

theorem create_structure_idempotent_witness:
  "fst (create_structure ''/tmp/x'' example_structure
         (snd (create_structure ''/tmp/x'' example_structure example_world))) = None
   \<and> fs (snd (create_structure ''/tmp/x'' example_structure
         (snd (create_structure ''/tmp/x'' example_structure example_world))))
     = fs (snd (create_structure ''/tmp/x'' example_structure example_world))"
proof -
  have "fst (create_structure ''/tmp/x'' example_structure example_world) = None"
    by code_simp
  then have "create_structure ''/tmp/x'' example_structure example_world
      = (None, snd (create_structure ''/tmp/x'' example_structure example_world))"
    by (simp add: prod_eq_iff)
  from create_structure_idempotent [OF this] show ?thesis by auto
qed

text \<open>
  C9. Parent before child. In every run, for every structure and base directory and
  for runs that end in an error as well, from every well-formed world: in the sequence
  of calls that change the tree, every directory and every file is created inside a
  directory that existed when the run started or that an earlier call of the run made.
  And the traversal itself goes parent first: for a nested mapping with simple keys,
  against a base directory \<open>B\<close> that exists and with nothing of the other kind in the
  way, the run succeeds and its calls are exactly those of the key paths in the order
  of \<open>key_paths\<close>, every key before the keys of its child; a directory is made before
  the traversal enters it, so none of the calls fails for a missing parent.
\<close>

theorem create_structure_parent_first:
  assumes "world_ok w"
  shows "(create_structure base_dir structure w = (r, w') \<longrightarrow>
            (\<exists>evs. trace w' = trace w @ evs \<and> parent_first (isdir (fs w)) evs))
     \<and> (isinstance_dict structure \<and> simple_keys structure
          \<and> resolve w (Path base_dir) = Inr B \<and> fs w B = Some Dir
          \<and> fits (fs w) B (key_paths structure) \<longrightarrow>
         (\<exists>v. create_structure base_dir structure w = (None, v)
            \<and> trace v = trace w @ steps (fs w) B (key_paths structure)
            \<and> parent_first (isdir (fs w)) (steps (fs w) B (key_paths structure))))"
proof -
  have any: "\<exists>evs. trace w' = trace w @ evs \<and> parent_first (isdir (fs w)) evs"
    if run: "create_structure base_dir structure w = (r, w')" for r w'
  proof -
    obtain r0 w0 where c: "create (Path base_dir) structure w = (r0, w0)"
      by (cases "create (Path base_dir) structure w")
    have "traced w w0"
      by (rule create_invariant(1) [where P = "traced w", OF _ _ _ _ c])
         (auto intro: traced_os_mkdir traced_write_text traced_touch traced_say
            traced_start assms)
    moreover from run c have "trace w' = trace w0"
      by (auto simp: create_structure_def Let_def split: option.splits)
    ultimately show ?thesis by (auto simp: traced_def)
  qed
  have simple: "\<exists>v. create_structure base_dir structure w = (None, v)
            \<and> trace v = trace w @ steps (fs w) B (key_paths structure)
            \<and> parent_first (isdir (fs w)) (steps (fs w) B (key_paths structure))"
    if d: "isinstance_dict structure" and sk: "simple_keys structure"
      and rB: "resolve w (Path base_dir) = Inr B" and dB: "fs w B = Some Dir"
      and ft: "fits (fs w) B (key_paths structure)"
  proof -
    from d have d': "isinstance_dict structure \<or> structure = JNull" by simp
    from create_steps(1) [OF sk d' rB dB ft] obtain w0 where
      c: "create (Path base_dir) structure w = (None, w0)"
      and t: "trace w0 = trace w @ steps (fs w) B (key_paths structure)" by blast
    let ?line = "CHR 0x0A # ''Project structure created successfully at '' @ path_str (Path base_dir)"
    from c have run: "create_structure base_dir structure w = (None, say ?line w0)"
      by (simp add: create_structure_def Let_def)
    from any [OF run] t have "parent_first (isdir (fs w)) (steps (fs w) B (key_paths structure))"
      by auto
    with run t show ?thesis by simp
  qed
  from any simple show ?thesis by blast
qed

theorem create_structure_parent_first_witness:
  "world_ok example_world
   \<and> fst (create_structure ''/tmp/x'' example_structure example_world) = None
   \<and> trace (snd (create_structure ''/tmp/x'' example_structure example_world))
       = [Mkdir [''tmp'', ''x'', ''a''], Creat [''tmp'', ''x'', ''a'', ''b.txt''],
          Write [''tmp'', ''x'', ''a'', ''b.txt''] ''hi'', Mkdir [''tmp'', ''x'', ''a'', ''c'']]
   \<and> parent_first (isdir (fs example_world))
       [Mkdir [''tmp'', ''x'', ''a''], Creat [''tmp'', ''x'', ''a'', ''b.txt''],
        Write [''tmp'', ''x'', ''a'', ''b.txt''] ''hi'', Mkdir [''tmp'', ''x'', ''a'', ''c'']]"
proof -
  have ok: "world_ok example_world" by (rule example_world_ok)
  have d: "isinstance_dict example_structure" by code_simp
  have sk: "simple_keys example_structure" by code_simp
  have r: "resolve example_world (Path ''/tmp/x'') = Inr [''tmp'', ''x'']" by code_simp
  have dB: "fs example_world [''tmp'', ''x''] = Some Dir" by code_simp
  have ft: "fits (fs example_world) [''tmp'', ''x''] (key_paths example_structure)" by code_simp
  have st: "steps (fs example_world) [''tmp'', ''x''] (key_paths example_structure)
      = [Mkdir [''tmp'', ''x'', ''a''], Creat [''tmp'', ''x'', ''a'', ''b.txt''],
         Write [''tmp'', ''x'', ''a'', ''b.txt''] ''hi'', Mkdir [''tmp'', ''x'', ''a'', ''c'']]"
    by code_simp
  have t0: "trace example_world = []" by (simp add: example_world_def)
  from create_structure_parent_first [OF ok, THEN conjunct2, THEN mp,
      OF conjI [OF d conjI [OF sk conjI [OF r conjI [OF dB ft]]]]]
  obtain v where "create_structure ''/tmp/x'' example_structure example_world = (None, v)"
    "trace v = trace example_world
       @ steps (fs example_world) [''tmp'', ''x''] (key_paths example_structure)"
    "parent_first (isdir (fs example_world))
       (steps (fs example_world) [''tmp'', ''x''] (key_paths example_structure))"
    by blast
  with ok show ?thesis unfolding st t0 by simp
qed

text \<open>
  C1, as the code has it. A key with a slash is one key and two entries: the run over
  \<^verbatim>\<open>{"a/b": {}}\<close> succeeds and makes the directories \<^verbatim>\<open>a\<close> and \<^verbatim>\<open>a/b\<close>
  (\<^verbatim>\<open>mkdir(parents=True)\<close>).
\<close>

theorem slash_key_counterexample:
  "fst (create_structure ''/tmp/x'' (JDict [(''a/b'', JDict [])]) example_world) = None
   \<and> trace (snd (create_structure ''/tmp/x'' (JDict [(''a/b'', JDict [])]) example_world))
       = [Mkdir [''tmp'', ''x'', ''a''], Mkdir [''tmp'', ''x'', ''a'', ''b'']]
   \<and> map fst (key_paths (JDict [(''a/b'', JDict [])])) = [[''a/b'']]"
  by code_simp

text \<open>
  C1, amended. For a nested mapping whose keys are single path components (not empty,
  not \<^verbatim>\<open>.\<close> or \<^verbatim>\<open>..\<close>, without a slash or a NUL character), materialized against a
  base directory \<open>B\<close> that exists, where no entry of the other kind is in the way (no
  file where a directory is due, no directory where a file is due): the run succeeds;
  for every key the tree then has the entry whose path under \<open>B\<close> is the sequence of
  keys from the root of the mapping to that key, a directory for a mapping or null
  child and a file holding \<^verbatim>\<open>str(child)\<close> otherwise; every other path is as before;
  and different keys have different paths.
\<close>

theorem one_entry_per_key:
  assumes "simple_keys (JDict kvs)"
    and "resolve w (Path base_dir) = Inr B" and "fs w B = Some Dir"
    and "fits (fs w) B (key_paths (JDict kvs))"
  shows "\<exists>w'. create_structure base_dir (JDict kvs) w = (None, w')
     \<and> (\<forall>(p, v) \<in> set (key_paths (JDict kvs)). fs w' (B @ p) = Some (node_of v))
     \<and> (\<forall>t. t \<notin> (\<lambda>(p, v). B @ p) ` set (key_paths (JDict kvs)) \<longrightarrow> fs w' t = fs w t)
     \<and> distinct (map fst (key_paths (JDict kvs)))"
proof -
  have d: "isinstance_dict (JDict kvs) \<or> JDict kvs = JNull" by (simp add: isinstance_dict_def)
  from create_lays(1) [OF assms(1) d assms(2,3,4)] obtain w0 where
    c: "create (Path base_dir) (JDict kvs) w = (None, w0)"
    and f: "fs w0 = lay B (JDict kvs) (fs w)" by blast
  let ?line = "CHR 0x0A # ''Project structure created successfully at '' @ path_str (Path base_dir)"
  from c have run: "create_structure base_dir (JDict kvs) w = (None, say ?line w0)"
    by (simp add: create_structure_def Let_def)
  have at: "\<forall>(p, v) \<in> set (key_paths (JDict kvs)). fs (say ?line w0) (B @ p) = Some (node_of v)"
    using lay_at(1) [OF assms(1)] by (auto simp: f simp del: lay.simps key_paths.simps)
  have frame: "\<forall>t. t \<notin> (\<lambda>(p, v). B @ p) ` set (key_paths (JDict kvs))
      \<longrightarrow> fs (say ?line w0) t = fs w t"
  proof (intro allI impI)
    fix t assume n: "t \<notin> (\<lambda>(p, v). B @ p) ` set (key_paths (JDict kvs))"
    show "fs (say ?line w0) t = fs w t"
    proof (rule ccontr)
      assume "fs (say ?line w0) t \<noteq> fs w t"
      then have "lay B (JDict kvs) (fs w) t \<noteq> fs w t" by (simp add: f)
      from lay_frame(1) [OF this] n show False by force
    qed
  qed
  from run at frame key_paths_distinct(1) [OF assms(1)] show ?thesis by blast
qed

theorem one_entry_per_key_witness:
  "fst (create_structure ''/tmp/x'' example_structure example_world) = None
   \<and> fs (snd (create_structure ''/tmp/x'' example_structure example_world))
        [''tmp'', ''x'', ''a''] = Some Dir
   \<and> fs (snd (create_structure ''/tmp/x'' example_structure example_world))
        [''tmp'', ''x'', ''a'', ''b.txt''] = Some (File ''hi'')
   \<and> fs (snd (create_structure ''/tmp/x'' example_structure example_world))
        [''tmp'', ''x'', ''a'', ''c''] = Some Dir
   \<and> fs (snd (create_structure ''/tmp/x'' example_structure example_world))
        [''tmp'', ''x'', ''b.txt''] = None
   \<and> map fst (key_paths example_structure) = [[''a''], [''a'', ''b.txt''], [''a'', ''c'']]"
proof -
  let ?kvs = "[(''a'', JDict [(''b.txt'', JStr ''hi''), (''c'', JDict [])])]"
  have sk: "simple_keys (JDict ?kvs)" by code_simp
  have r: "resolve example_world (Path ''/tmp/x'') = Inr [''tmp'', ''x'']" by code_simp
  have d: "fs example_world [''tmp'', ''x''] = Some Dir" by code_simp
  have ft: "fits (fs example_world) [''tmp'', ''x''] (key_paths (JDict ?kvs))" by code_simp
  have kp: "key_paths (JDict ?kvs) = [([''a''], JDict [(''b.txt'', JStr ''hi''), (''c'', JDict [])]),
      ([''a'', ''b.txt''], JStr ''hi''), ([''a'', ''c''], JDict [])]"
    by simp
  have n: "fs example_world [''tmp'', ''x'', ''b.txt''] = None" by code_simp
  from one_entry_per_key [OF sk r d ft] obtain w' where
    run: "create_structure ''/tmp/x'' (JDict ?kvs) example_world = (None, w')"
    and at: "\<forall>(p, v) \<in> set (key_paths (JDict ?kvs)). fs w' ([''tmp'', ''x''] @ p) = Some (node_of v)"
    and frame: "\<forall>t. t \<notin> (\<lambda>(p, v). [''tmp'', ''x''] @ p) ` set (key_paths (JDict ?kvs))
        \<longrightarrow> fs w' t = fs example_world t"
    by blast
  from at have "fs w' [''tmp'', ''x'', ''a''] = Some Dir"
    "fs w' [''tmp'', ''x'', ''a'', ''b.txt''] = Some (File ''hi'')"
    "fs w' [''tmp'', ''x'', ''a'', ''c''] = Some Dir"
    unfolding kp by (simp_all add: node_of_def isinstance_dict_def)
  moreover from frame have "fs w' [''tmp'', ''x'', ''b.txt''] = fs example_world [''tmp'', ''x'', ''b.txt'']"
    unfolding kp by simp
  ultimately show ?thesis using run n unfolding kp
    by (simp add: example_structure_def)
qed



text \<open>
  C3. For a pair \<open>(name, child)\<close> of a mapping whose child is a mapping or null. When
  \<^verbatim>\<open>_create\<close> on the mapping has done the pairs before it and is in the world \<open>w1\<close>,
  the directory of \<^verbatim>\<open>base / name\<close> exists and at its path \<open>t\<close> there is nothing or
  a directory, then \<^verbatim>\<open>mkdir\<close> succeeds, on a directory that exists as well, and \<open>t\<close>
  is a directory; \<^verbatim>\<open>_create\<close> of the mapping goes on with \<^verbatim>\<open>_create\<close> of the child,
  with \<^verbatim>\<open>base / name\<close> as its base, and then with the pairs after it; and for a null
  or empty-mapping child the pair leaves the tree as it was but for the directory at
  \<open>t\<close>: never a file, and with nothing under it when it is new in a well-formed tree.
  And after every run of \<^verbatim>\<open>create_structure\<close> that succeeded, every such pair of the
  structure, at every depth and whatever its key, has a directory at the path the
  traversal joined for it.
\<close>

theorem dict_or_null_child_makes_directory:
  assumes "isinstance_dict child \<or> child = JNull"
  shows "(create base (JDict pre) w = (None, w1) \<and> resolve w1 (joinpath base name) = Inr t
        \<and> (fs w1 t = None \<or> fs w1 t = Some Dir) \<longrightarrow>
      (\<exists>w2. path_mkdir (joinpath base name) w1 = (None, w2)
         \<and> fs w2 = (fs w1)(t \<mapsto> Dir)
         \<and> create base (JDict (pre @ (name, child) # post)) w =
             (case create (joinpath base name) child
                     (say (''Created directory: '' @ path_str (joinpath base name)) w2) of
                (None, w3) \<Rightarrow> create base (JDict post) w3
              | (Some e, w3) \<Rightarrow> (Some e, w3))
         \<and> (child = JNull \<or> child = JDict [] \<longrightarrow>
              (\<exists>w3. create base (JDict (pre @ [(name, child)])) w = (None, w3)
                 \<and> fs w3 = (fs w1)(t \<mapsto> Dir)
                 \<and> (world_ok w1 \<and> fs w1 t = None \<longrightarrow> (\<forall>c u. fs w3 (t @ c # u) = None))))))
    \<and> (create_structure base_dir structure w = (None, w')
        \<and> (p, child) \<in> set (entries (Path base_dir) structure) \<longrightarrow> is_dir p w')"
proof -
  let ?path = "joinpath base name"
  let ?line = "''Created directory: '' @ path_str ?path"
  have local: "\<exists>w2. path_mkdir ?path w1 = (None, w2)
         \<and> fs w2 = (fs w1)(t \<mapsto> Dir)
         \<and> create base (JDict (pre @ (name, child) # post)) w =
             (case create ?path child (say ?line w2) of
                (None, w3) \<Rightarrow> create base (JDict post) w3
              | (Some e, w3) \<Rightarrow> (Some e, w3))
         \<and> (child = JNull \<or> child = JDict [] \<longrightarrow>
              (\<exists>w3. create base (JDict (pre @ [(name, child)])) w = (None, w3)
                 \<and> fs w3 = (fs w1)(t \<mapsto> Dir)
                 \<and> (world_ok w1 \<and> fs w1 t = None \<longrightarrow> (\<forall>c u. fs w3 (t @ c # u) = None))))"
    if reach: "create base (JDict pre) w = (None, w1)"
      and r: "resolve w1 ?path = Inr t" and n: "fs w1 t = None \<or> fs w1 t = Some Dir"
  proof -
    from reach have pre: "create_items base pre w = (None, w1)" by simp
    from path_mkdir_makes [OF r n] obtain w2 where
      m: "path_mkdir ?path w1 = (None, w2)" and f: "fs w2 = (fs w1)(t \<mapsto> Dir)" by blast
    have step: "create_items base ((name, child) # post) w1 =
        (case create ?path child (say ?line w2) of
           (None, w3) \<Rightarrow> create_items base post w3
         | (Some e, w3) \<Rightarrow> (Some e, w3))" for post
      using assms m by (simp add: Let_def)
    have leaf: "\<exists>w3. create base (JDict (pre @ [(name, child)])) w = (None, w3)
        \<and> fs w3 = (fs w1)(t \<mapsto> Dir)
        \<and> (world_ok w1 \<and> fs w1 t = None \<longrightarrow> (\<forall>c u. fs w3 (t @ c # u) = None))"
      if "child = JNull \<or> child = JDict []"
    proof -
      from that have "create ?path child (say ?line w2) = (None, say ?line w2)" by auto
      then have "create_items base (pre @ [(name, child)]) w = (None, say ?line w2)"
        using pre step [of "[]"] by (simp add: create_items_append [of base pre])
      moreover have "\<forall>c u. ((fs w1)(t \<mapsto> Dir)) (t @ c # u) = None"
        if "world_ok w1 \<and> fs w1 t = None"
        using that fs_ok_below [of "fs w1" t] by (simp add: world_ok_def)
      ultimately show ?thesis using f by auto
    qed
    from m f step [of post] leaf pre show ?thesis
      by (simp add: create_items_append [of base pre] split: prod.splits option.splits)
  qed
  have global: "is_dir p w'"
    if run: "create_structure base_dir structure w = (None, w')"
      and e: "(p, child) \<in> set (entries (Path base_dir) structure)"
  proof -
    from run obtain w0 where c: "create (Path base_dir) structure w = (None, w0)"
      and w': "w' = say (CHR 0x0A # ''Project structure created successfully at ''
          @ path_str (Path base_dir)) w0"
      by (auto simp: create_structure_def Let_def split: prod.splits option.splits)
    from entries_made(1) [OF c e assms] w' show ?thesis by simp
  qed
  from local global show ?thesis by blast
qed

theorem dict_or_null_child_makes_directory_witness:
  "fst (create_structure ''/tmp/x'' example_structure example_world) = None
   \<and> fs example_world_after [''tmp'', ''x'', ''a''] = Some Dir
   \<and> fs example_world_after [''tmp'', ''x'', ''a'', ''c''] = Some Dir
   \<and> fst (create_structure ''/tmp'' (JDict [(''x'', JNull)]) example_world) = None
   \<and> fs (snd (create_structure ''/tmp'' (JDict [(''x'', JNull)]) example_world)) = fs example_world"
proof -
  let ?a = "joinpath (Path ''/tmp/x'') ''a''"
  let ?c = "joinpath ?a ''c''"
  have ok: "fst (create_structure ''/tmp/x'' example_structure example_world) = None"
    by code_simp
  then have run: "create_structure ''/tmp/x'' example_structure example_world
      = (None, example_world_after)"
    by (simp add: example_world_after_def prod_eq_iff)
  have ia: "isinstance_dict (JDict [(''b.txt'', JStr ''hi''), (''c'', JDict [])])
      \<or> JDict [(''b.txt'', JStr ''hi''), (''c'', JDict [])] = JNull"
    and ic: "isinstance_dict (JDict []) \<or> JDict [] = JNull"
    by (simp_all add: isinstance_dict_def)
  have ea: "(?a, JDict [(''b.txt'', JStr ''hi''), (''c'', JDict [])])
      \<in> set (entries (Path ''/tmp/x'') example_structure)"
    and ec: "(?c, JDict []) \<in> set (entries (Path ''/tmp/x'') example_structure)"
    by (simp_all add: example_structure_def)
  from dict_or_null_child_makes_directory [OF ia, THEN conjunct2, THEN mp, OF conjI [OF run ea]]
  have da: "is_dir ?a example_world_after" .
  from dict_or_null_child_makes_directory [OF ic, THEN conjunct2, THEN mp, OF conjI [OF run ec]]
  have dc: "is_dir ?c example_world_after" .
  have ra: "tail ?a = [''tmp'', ''x'', ''a'']" "root ?a = ''/''"
    and rc: "tail ?c = [''tmp'', ''x'', ''a'', ''c'']" "root ?c = ''/''" by code_simp+
  have wa: "walk f [] [''tmp'', ''x'', ''a''] = Inr t \<Longrightarrow> t = [''tmp'', ''x'', ''a'']" for f t
    by (auto split: option.splits node.splits)
  have wc: "walk f [] [''tmp'', ''x'', ''a'', ''c''] = Inr t \<Longrightarrow> t = [''tmp'', ''x'', ''a'', ''c'']"
    for f t
    by (auto split: option.splits node.splits)
  from is_dir_post [OF da] obtain ta where
    "resolve example_world_after ?a = Inr ta" "fs example_world_after ta = Some Dir" by blast
  then have a: "fs example_world_after [''tmp'', ''x'', ''a''] = Some Dir"
    using wa [of "fs example_world_after" ta]
    by (simp add: resolve_def ra del: walk.simps split: if_splits)
  from is_dir_post [OF dc] obtain tc where
    "resolve example_world_after ?c = Inr tc" "fs example_world_after tc = Some Dir" by blast
  then have c: "fs example_world_after [''tmp'', ''x'', ''a'', ''c''] = Some Dir"
    using wc [of "fs example_world_after" tc]
    by (simp add: resolve_def rc del: walk.simps split: if_splits)
  have s: "create (Path ''/tmp'') (JDict []) example_world = (None, example_world)" by simp
  have r2: "resolve example_world (joinpath (Path ''/tmp'') ''x'') = Inr [''tmp'', ''x'']"
    by code_simp
  have n2: "fs example_world [''tmp'', ''x''] = None \<or> fs example_world [''tmp'', ''x''] = Some Dir"
    by code_simp
  have inull: "isinstance_dict JNull \<or> JNull = JNull" by simp
  from dict_or_null_child_makes_directory [OF inull, THEN conjunct1, THEN mp,
      OF conjI [OF s conjI [OF r2 n2]], of "[]"]
  obtain w3 where b: "create (Path ''/tmp'') (JDict [(''x'', JNull)]) example_world = (None, w3)"
    "fs w3 = (fs example_world)([''tmp'', ''x''] \<mapsto> Dir)"
    by auto
  have "fs example_world [''tmp'', ''x''] = Some Dir" by code_simp
  with b(2) have "fs w3 = fs example_world" by (simp add: fun_upd_idem)
  with b(1) have "fst (create_structure ''/tmp'' (JDict [(''x'', JNull)]) example_world) = None
   \<and> fs (snd (create_structure ''/tmp'' (JDict [(''x'', JNull)]) example_world)) = fs example_world"
    by (simp add: create_structure_def Let_def del: create.simps)
  with ok a c show ?thesis by blast
qed

text \<open>
  C8, as the code has it. A root-level number is no file name: \<^verbatim>\<open>base / 5\<close> raises
  \<^verbatim>\<open>TypeError\<close> and nothing is created.
\<close>

theorem root_number_counterexample:
  "create_structure ''/tmp/x'' (JInt 5) example_world = (Some TypeError, example_world)"
  by (simp add: create_structure_def)

text \<open>
  C8, amended. A root-level string is a file name: when the directory of
  \<^verbatim>\<open>base / s\<close> exists, the run succeeds, an empty file is created at that path if
  nothing is there, an entry that is there stays as it is, and nothing else changes.
  A root-level boolean, number or list raises \<^verbatim>\<open>TypeError\<close> and changes nothing.
\<close>

theorem root_string_touched:
  "(resolve w (joinpath (Path base_dir) s) = Inr t \<longrightarrow>
      (\<exists>w'. create_structure base_dir (JStr s) w = (None, w')
         \<and> fs w' = (if fs w t = None then (fs w)(t \<mapsto> File []) else fs w)))
   \<and> create_structure base_dir (JBool b) w = (Some TypeError, w)
   \<and> create_structure base_dir (JInt i) w = (Some TypeError, w)
   \<and> create_structure base_dir (JList xs) w = (Some TypeError, w)"
proof -
  have "\<exists>w'. create_structure base_dir (JStr s) w = (None, w')
         \<and> fs w' = (if fs w t = None then (fs w)(t \<mapsto> File []) else fs w)"
    if r: "resolve w (joinpath (Path base_dir) s) = Inr t"
  proof (cases "fs w t")
    case None
    with r show ?thesis by (simp add: create_structure_def touch_def Let_def)
  next
    case (Some n)
    with r show ?thesis by (simp add: create_structure_def touch_def Let_def)
  qed
  then show ?thesis by (simp add: create_structure_def)
qed

theorem root_string_touched_witness:
  "fst (create_structure ''/tmp/x'' (JStr ''f.txt'') example_world) = None
   \<and> fs (snd (create_structure ''/tmp/x'' (JStr ''f.txt'') example_world))
        [''tmp'', ''x'', ''f.txt''] = Some (File [])"
proof -
  have r: "resolve example_world (joinpath (Path ''/tmp/x'') ''f.txt'') = Inr [''tmp'', ''x'', ''f.txt'']"
    by code_simp
  have n: "fs example_world [''tmp'', ''x'', ''f.txt''] = None" by code_simp
  from root_string_touched [of example_world "''/tmp/x''" "''f.txt''" "[''tmp'', ''x'', ''f.txt'']"
      True 0 "[]"] r n
  obtain w' where "create_structure ''/tmp/x'' (JStr ''f.txt'') example_world = (None, w')"
    "fs w' = (fs example_world)([''tmp'', ''x'', ''f.txt''] \<mapsto> File [])"
    by auto
  then show ?thesis by simp
qed

text \<open>
  C10. For a pair \<open>(name, child)\<close> of a mapping whose child is neither a mapping nor
  null (a boolean, a number, a string, a list): \<^verbatim>\<open>create_structure\<close> does with the
  mapping exactly what it does with the mapping that has the string \<^verbatim>\<open>str(child)\<close>
  in the place of the child; no mapping raises a \<^verbatim>\<open>TypeError\<close>, whatever the types of
  its children; and when \<^verbatim>\<open>_create\<close> on the mapping has done the pairs before the
  pair, the directory of \<^verbatim>\<open>base / name\<close> exists and no directory is at that path,
  the pair raises nothing, the file holds \<^verbatim>\<open>str(child)\<close> and the traversal goes on
  with the pairs after it.
\<close>

theorem other_child_written_as_str:
  assumes "\<not> isinstance_dict child" and "child \<noteq> JNull"
  shows "create_structure base_dir (JDict (pre @ (name, child) # post)) w
       = create_structure base_dir (JDict (pre @ (name, JStr (py_str child)) # post)) w
     \<and> fst (create_structure base_dir (JDict (pre @ (name, child) # post)) w) \<noteq> Some TypeError
     \<and> (create base (JDict pre) w = (None, w1) \<and> resolve w1 (joinpath base name) = Inr t
          \<and> fs w1 t \<noteq> Some Dir \<longrightarrow>
        (\<exists>w2. create base (JDict (pre @ [(name, child)])) w = (None, w2)
           \<and> fs w2 = (fs w1)(t \<mapsto> File (py_str child))
           \<and> create base (JDict (pre @ (name, child) # post)) w = create base (JDict post) w2))"
proof -
  from assms have leaf: "\<not> (isinstance_dict child \<or> child = JNull)" by simp
  have "create_items b (pre @ (name, child) # post) w
       = create_items b (pre @ (name, JStr (py_str child)) # post) w" for b
    unfolding create_items_append [of b pre] leaf_as_str [OF leaf, of b name post] ..
  then have same: "create_structure base_dir (JDict (pre @ (name, child) # post)) w
       = create_structure base_dir (JDict (pre @ (name, JStr (py_str child)) # post)) w"
    by (simp add: create_structure_def)
  have nt: "fst (create_structure base_dir (JDict (pre @ (name, child) # post)) w) \<noteq> Some TypeError"
  proof
    assume a: "fst (create_structure base_dir (JDict (pre @ (name, child) # post)) w) = Some TypeError"
    obtain r0 w0 where c: "create_items (Path base_dir) (pre @ (name, child) # post) w = (r0, w0)"
      by (cases "create_items (Path base_dir) (pre @ (name, child) # post) w")
    with a have "r0 = Some TypeError"
      by (cases r0) (simp_all add: create_structure_def Let_def)
    with c mapping_no_type_error(2) [of "Path base_dir" _ w TypeError w0] show False by blast
  qed
  have written: "\<exists>w2. create base (JDict (pre @ [(name, child)])) w = (None, w2)
           \<and> fs w2 = (fs w1)(t \<mapsto> File (py_str child))
           \<and> create base (JDict (pre @ (name, child) # post)) w = create base (JDict post) w2"
    if reach: "create base (JDict pre) w = (None, w1)"
      and r: "resolve w1 (joinpath base name) = Inr t" and n: "fs w1 t \<noteq> Some Dir"
  proof -
    from leaf_step [OF leaf r n] obtain w2 where
      s: "create_items base [(name, child)] w1 = (None, w2)"
      and f: "fs w2 = (fs w1)(t \<mapsto> File (py_str child))" by auto
    have "create_items base ((name, child) # post) w1 = create_items base post w2"
      using s create_items_append [of base "[(name, child)]" post w1] by simp
    with s f reach show ?thesis by (simp add: create_items_append [of base pre])
  qed
  from same nt written show ?thesis by blast
qed

theorem other_child_written_as_str_witness:
  "fst (create_structure ''/tmp/x'' (JDict (example_values @ [(''n.txt'', JInt 42)])) example_world)
     = None
   \<and> fs (snd (create_structure ''/tmp/x'' (JDict (example_values @ [(''n.txt'', JInt 42)]))
        example_world)) [''tmp'', ''x'', ''n.txt''] = Some (File ''42'')
   \<and> fs (snd (create_structure ''/tmp/x'' (JDict (example_values @ [(''n.txt'', JInt 42)]))
        example_world)) [''tmp'', ''x'', ''d'', ''t.txt''] = Some (File ''True'')
   \<and> fs (snd (create_structure ''/tmp/x'' (JDict (example_values @ [(''n.txt'', JInt 42)]))
        example_world)) [''tmp'', ''x'', ''d'', ''l.txt'']
     = Some (File (''[-7, None, '' @ [CHR 0x22, CHR ''i'', CHR ''t'', CHR 0x27, CHR ''s'', CHR 0x22]
         @ '', '' @ [CHR 0x27, CHR ''a'', CHR 0x22, CHR ''b'', CHR 0x5C, CHR 0x27, CHR ''c'',
                     CHR 0x5C, CHR 0x5C, CHR ''d'', CHR 0x5C, CHR ''n'', CHR 0x27]
         @ '', '' @ [CHR 0x27, CHR 0x5C, CHR ''x'', CHR ''0'', CHR ''1'', CHR 0xE9, CHR 0x27]
         @ '', {'' @ [CHR 0x27, CHR ''k'', CHR 0x27] @ '': '' @ [CHR 0x27, CHR ''v'', CHR 0x27]
         @ ''}, []]''))"
proof -
  let ?base = "Path ''/tmp/x''"
  let ?w1 = "snd (create ?base (JDict example_values) example_world)"
  let ?t = "[''tmp'', ''x'', ''n.txt'']"
  have "fst (create ?base (JDict example_values) example_world) = None" by code_simp
  then have reach: "create ?base (JDict example_values) example_world = (None, ?w1)"
    by (simp add: prod_eq_iff)
  have r: "resolve ?w1 (joinpath ?base ''n.txt'') = Inr ?t" by code_simp
  have n: "fs ?w1 ?t \<noteq> Some Dir" by code_simp
  have i: "\<not> isinstance_dict (JInt 42)" "JInt 42 \<noteq> JNull" by (simp_all add: isinstance_dict_def)
  have p: "py_str (JInt 42) = ''42''" by code_simp
  from other_child_written_as_str [OF i, THEN conjunct2, THEN conjunct2, THEN mp,
      OF conjI [OF reach conjI [OF r n]]]
  obtain w2 where c: "create ?base (JDict (example_values @ [(''n.txt'', JInt 42)])) example_world
      = (None, w2)" and f: "fs w2 = (fs ?w1)(?t \<mapsto> File ''42'')"
    unfolding p by blast
  from c have cs: "create_structure ''/tmp/x'' (JDict (example_values @ [(''n.txt'', JInt 42)]))
      example_world = (None, say (CHR 0x0A # ''Project structure created successfully at ''
          @ path_str ?base) w2)"
    by (simp add: create_structure_def Let_def del: create.simps)
  have t: "fs ?w1 [''tmp'', ''x'', ''d'', ''t.txt''] = Some (File ''True'')" by code_simp
  have l: "fs ?w1 [''tmp'', ''x'', ''d'', ''l.txt'']
     = Some (File (''[-7, None, '' @ [CHR 0x22, CHR ''i'', CHR ''t'', CHR 0x27, CHR ''s'', CHR 0x22]
         @ '', '' @ [CHR 0x27, CHR ''a'', CHR 0x22, CHR ''b'', CHR 0x5C, CHR 0x27, CHR ''c'',
                     CHR 0x5C, CHR 0x5C, CHR ''d'', CHR 0x5C, CHR ''n'', CHR 0x27]
         @ '', '' @ [CHR 0x27, CHR 0x5C, CHR ''x'', CHR ''0'', CHR ''1'', CHR 0xE9, CHR 0x27]
         @ '', {'' @ [CHR 0x27, CHR ''k'', CHR 0x27] @ '': '' @ [CHR 0x27, CHR ''v'', CHR 0x27]
         @ ''}, []]''))" by code_simp
  show ?thesis unfolding cs using f t l by (simp del: create.simps)
qed

text \<open>
  C5. Saving the structure to a JSON file and loading that file gives the structure
  back: after \<^verbatim>\<open>save_json\<close> has written the file without an error, \<^verbatim>\<open>load_json\<close> of
  the same path, from any state of the designer, sets the structure to the one that was
  saved: the same keys in the same order, the same nesting and the same leaf values,
  for every structure of the model whose mappings have pairwise different keys.
\<close>

theorem save_then_load:
  assumes "wf_json (project_structure ed)" and "file_path \<noteq> []"
    and "save_json file_path (ed, w) = (None, ed1, w1)"
  shows "\<exists>ed2. load_json file_path w1 ed' = Some ed2
     \<and> project_structure ed2 = project_structure ed"
proof -
  let ?text = "json_dumps (project_structure ed)"
  from assms(2,3) have wr: "write_text (Path file_path) ?text w = (None, w1)"
    by (auto simp: save_json_def split: prod.splits option.splits)
  from read_after_write [OF wr] have "read_text file_path w1 = Inr ?text"
    by (auto simp: read_text_def)
  moreover have "json_loads ?text = Some (Inr (project_structure ed))"
    by (rule json_loads_dumps [OF assms(1)])
  ultimately show ?thesis using assms(2) by (simp add: load_json_def update_tree_view_def)
qed

theorem save_then_load_witness:
  "fst (save_json ''/tmp/x/s.json'' (example_designer, example_world)) = None
   \<and> (\<exists>ed2. load_json ''/tmp/x/s.json''
          (snd (snd (save_json ''/tmp/x/s.json'' (example_designer, example_world))))
          (example_designer\<lparr>project_structure := JNull\<rparr>) = Some ed2
        \<and> project_structure ed2 = example_structure)"
proof -
  have w: "wf_json (project_structure example_designer)" by code_simp
  have ok: "fst (save_json ''/tmp/x/s.json'' (example_designer, example_world)) = None"
    by code_simp
  then have s: "save_json ''/tmp/x/s.json'' (example_designer, example_world)
      = (None, fst (snd (save_json ''/tmp/x/s.json'' (example_designer, example_world))),
         snd (snd (save_json ''/tmp/x/s.json'' (example_designer, example_world))))"
    by (simp add: prod_eq_iff)
  have ps: "project_structure example_designer = example_structure"
    by (simp add: example_designer_def)
  from save_then_load [OF w _ s, of "example_designer\<lparr>project_structure := JNull\<rparr>"] ok ps
  show ?thesis by simp
qed



text \<open>
  C7. When the file dialog gave a path and reading the file or parsing its text raises,
  \<^verbatim>\<open>load_json\<close> shows the error in a message box and changes nothing else: the
  structure, the tree view and the status bar are as before. And whenever
  \<^verbatim>\<open>load_json\<close> changes the structure, the file was read and its whole text parsed
  to the new structure.
\<close>

theorem load_failure_keeps_structure:
  "(file_path \<noteq> [] \<and> (read_text file_path w = Inl e
        \<or> (\<exists>text. read_text file_path w = Inr text \<and> json_loads text = Some (Inl e)))
      \<longrightarrow> load_json file_path w ed
            = Some (ed\<lparr>dialogs := dialogs ed @ [ShowError ''Failed to load JSON:'' e]\<rparr>))
   \<and> (\<forall>ed'. load_json file_path w ed = Some ed' \<longrightarrow>
         project_structure ed' \<noteq> project_structure ed \<longrightarrow>
         (\<exists>text. read_text file_path w = Inr text
            \<and> json_loads text = Some (Inr (project_structure ed'))))"
  by (auto simp: load_json_def update_tree_view_def split: sum.splits option.splits if_splits)

theorem load_failure_keeps_structure_witness:
  "load_json ''/tmp/bad.json'' example_world_bad example_designer
     = Some (example_designer\<lparr>dialogs := [ShowError ''Failed to load JSON:'' JSONDecodeError]\<rparr>)
   \<and> load_json ''/tmp/none.json'' example_world_bad example_designer
     = Some (example_designer\<lparr>dialogs := [ShowError ''Failed to load JSON:'' FileNotFoundError]\<rparr>)
   \<and> project_structure (example_designer\<lparr>dialogs := [ShowError ''Failed to load JSON:'' JSONDecodeError]\<rparr>)
     = example_structure"
proof -
  have r1: "read_text ''/tmp/bad.json'' example_world_bad = Inr ''[1,]''" by code_simp
  have p1: "json_loads ''[1,]'' = Some (Inl JSONDecodeError)" by code_simp
  have r2: "read_text ''/tmp/none.json'' example_world_bad = Inl FileNotFoundError" by code_simp
  have d: "dialogs example_designer = []" by (simp add: example_designer_def)
  from load_failure_keeps_structure [of "''/tmp/bad.json''" example_world_bad JSONDecodeError
      example_designer] r1 p1
  have a: "load_json ''/tmp/bad.json'' example_world_bad example_designer
     = Some (example_designer\<lparr>dialogs := [ShowError ''Failed to load JSON:'' JSONDecodeError]\<rparr>)"
    by (simp add: d)
  from load_failure_keeps_structure [of "''/tmp/none.json''" example_world_bad FileNotFoundError
      example_designer] r2
  have b: "load_json ''/tmp/none.json'' example_world_bad example_designer
     = Some (example_designer\<lparr>dialogs := [ShowError ''Failed to load JSON:'' FileNotFoundError]\<rparr>)"
    by (simp add: d)
  from a b show ?thesis by (simp add: example_designer_def)
qed

end
